theory Spec2Isabelle
  imports Main "HOL-Library.Word"
begin

unbundle bit_operations_syntax

section \<open>Data model\<close>

text \<open>
  The engine lives in \<^verbatim>\<open>src/src/App.jsx\<close> (from \<^verbatim>\<open>INITIAL_HASH\<close> down to
  \<^verbatim>\<open>buildMd5Trace\<close>).  Bytes are the numbers 0..255 the code keeps in plain arrays,
  words are the unsigned 32-bit values every \<^verbatim>\<open>>>> 0\<close> produces, and a JavaScript
  string is its sequence of UTF-16 code units (what \<^verbatim>\<open>length\<close>, \<^verbatim>\<open>slice\<close> and the
  regular expressions of the code count).
\<close>

type_synonym u8 = "8 word"
type_synonym u16 = "16 word"
type_synonym u32 = "32 word"
type_synonym jsstring = "u16 list"

text \<open>An ASCII literal as a JavaScript string.\<close>

definition js :: "string \<Rightarrow> jsstring" where
  "js s = map (\<lambda>c. of_nat (of_char c)) s"

datatype input_type = Text | Hex

text \<open>Both \<^verbatim>\<open>throw new Error(message)\<close> sites of the code raise this one kind.\<close>

datatype error = Error string

section \<open>Constant tables\<close>

definition INITIAL_HASH :: "u32 list" where
  "INITIAL_HASH = [0x67452301, 0xefcdab89, 0x98badcfe, 0x10325476]"

definition SHIFT_AMOUNTS :: "nat list" where
  "SHIFT_AMOUNTS =
    [7, 12, 17, 22, 7, 12, 17, 22, 7, 12, 17, 22, 7, 12, 17, 22,
     5, 9, 14, 20, 5, 9, 14, 20, 5, 9, 14, 20, 5, 9, 14, 20,
     4, 11, 16, 23, 4, 11, 16, 23, 4, 11, 16, 23, 4, 11, 16, 23,
     6, 10, 15, 21, 6, 10, 15, 21, 6, 10, 15, 21, 6, 10, 15, 21]"

text \<open>
  The code fills \<^verbatim>\<open>TABLE_K\<close> at load time with
  \<^verbatim>\<open>Math.floor(Math.abs(Math.sin(index + 1)) * 0x100000000) >>> 0\<close> for index 0..63.
  That is a floating-point computation; the table below holds the 64 values it yields
  (the constants T[1..64] of RFC 1321).
\<close>

definition TABLE_K :: "u32 list" where
  "TABLE_K =
    [0xd76aa478, 0xe8c7b756, 0x242070db, 0xc1bdceee,
     0xf57c0faf, 0x4787c62a, 0xa8304613, 0xfd469501,
     0x698098d8, 0x8b44f7af, 0xffff5bb1, 0x895cd7be,
     0x6b901122, 0xfd987193, 0xa679438e, 0x49b40821,
     0xf61e2562, 0xc040b340, 0x265e5a51, 0xe9b6c7aa,
     0xd62f105d, 0x02441453, 0xd8a1e681, 0xe7d3fbc8,
     0x21e1cde6, 0xc33707d6, 0xf4d50d87, 0x455a14ed,
     0xa9e3e905, 0xfcefa3f8, 0x676f02d9, 0x8d2a4c8a,
     0xfffa3942, 0x8771f681, 0x6d9d6122, 0xfde5380c,
     0xa4beea44, 0x4bdecfa9, 0xf6bb4b60, 0xbebfbc70,
     0x289b7ec6, 0xeaa127fa, 0xd4ef3085, 0x04881d05,
     0xd9d4d039, 0xe6db99e5, 0x1fa27cf8, 0xc4ac5665,
     0xf4292244, 0x432aff97, 0xab9423a7, 0xfc93a039,
     0x655b59c3, 0x8f0ccc92, 0xffeff47d, 0x85845dd1,
     0x6fa87e4f, 0xfe2ce6e0, 0xa3014314, 0x4e0811a1,
     0xf7537e82, 0xbd3af235, 0x2ad7d2bb, 0xeb86d391]"

definition ROUND_FORMULAS :: "string \<Rightarrow> string" where
  "ROUND_FORMULAS name =
    (if name = ''F'' then ''(B & C) | (~B & D)''
     else if name = ''G'' then ''(D & B) | (~D & C)''
     else if name = ''H'' then ''B ^ C ^ D''
     else ''C ^ (B | ~D)'')"

definition INDEX_FORMULAS :: "string \<Rightarrow> string" where
  "INDEX_FORMULAS name =
    (if name = ''F'' then ''g = i''
     else if name = ''G'' then ''g = (5i + 1) mod 16''
     else if name = ''H'' then ''g = (3i + 5) mod 16''
     else ''g = (7i) mod 16'')"

section \<open>Word helpers\<close>

text \<open>
  \<^verbatim>\<open>((value << amount) | (value >>> (32 - amount))) >>> 0\<close>.  JavaScript takes a shift
  count modulo 32, also when \<^verbatim>\<open>32 - amount\<close> is negative.
\<close>

definition leftRotate :: "u32 \<Rightarrow> nat \<Rightarrow> u32" where
  "leftRotate val amount =
    push_bit (amount mod 32) val OR drop_bit (nat ((32 - int amount) mod 32)) val"

text \<open>
  A read past the end of an array is \<^verbatim>\<open>undefined\<close>, which the bit operators take as 0.
\<close>

definition byte_at :: "u8 list \<Rightarrow> nat \<Rightarrow> u32" where
  "byte_at bytes i = (if i < length bytes then ucast (bytes ! i) else 0)"

definition bytesToWordLittleEndian :: "u8 list \<Rightarrow> nat \<Rightarrow> u32" where
  "bytesToWordLittleEndian bytes offset =
    byte_at bytes offset OR
    push_bit 8 (byte_at bytes (offset + 1)) OR
    push_bit 16 (byte_at bytes (offset + 2)) OR
    push_bit 24 (byte_at bytes (offset + 3))"

section \<open>Digest formatter\<close>

definition hex_digit :: "nat \<Rightarrow> char" where
  "hex_digit n = ''0123456789abcdef'' ! n"

text \<open>\<^verbatim>\<open>Number.prototype.toString(16)\<close> on a non-negative integer.\<close>

fun toString16 :: "nat \<Rightarrow> string" where
  "toString16 n =
    (if n < 16 then [hex_digit n] else toString16 (n div 16) @ [hex_digit (n mod 16)])"

declare toString16.simps [simp del]

text \<open>\<^verbatim>\<open>String.prototype.padStart\<close> with a one-character filler.\<close>

definition padStart :: "nat \<Rightarrow> char \<Rightarrow> string \<Rightarrow> string" where
  "padStart n c s = replicate (n - length s) c @ s"

definition wordToHexLittleEndian :: "u32 \<Rightarrow> string" where
  "wordToHexLittleEndian word =
    (let val = word in
     concat (map (\<lambda>byte. padStart 2 (CHR ''0'') (toString16 (unat byte)))
       [val AND 0xff,
        drop_bit 8 val AND 0xff,
        drop_bit 16 val AND 0xff,
        drop_bit 24 val AND 0xff]))"

definition digestFromState :: "u32 list \<Rightarrow> string" where
  "digestFromState state = concat (map wordToHexLittleEndian state)"

section \<open>Byte normalizer\<close>

text \<open>The characters the regular expression class \<^verbatim>\<open>\s\<close> matches.\<close>

definition is_space :: "u16 \<Rightarrow> bool" where
  "is_space c \<longleftrightarrow>
    c = 0x09 \<or> c = 0x0A \<or> c = 0x0B \<or> c = 0x0C \<or> c = 0x0D \<or> c = 0x20 \<or>
    c = 0xA0 \<or> c = 0x1680 \<or> (0x2000 \<le> c \<and> c \<le> 0x200A) \<or> c = 0x2028 \<or>
    c = 0x2029 \<or> c = 0x202F \<or> c = 0x205F \<or> c = 0x3000 \<or> c = 0xFEFF"

text \<open>\<^verbatim>\<open>value.replace(/\s+/g, '')\<close>\<close>

definition remove_whitespace :: "jsstring \<Rightarrow> jsstring" where
  "remove_whitespace s = filter (\<lambda>c. \<not> is_space c) s"

text \<open>
  \<^verbatim>\<open>String.prototype.toLowerCase\<close>.  The ASCII letters are mapped exactly, and so are
  the two characters outside ASCII whose lower case contains an ASCII character: U+0130
  becomes the two code units U+0069 U+0307 (the only mapping that changes the length of
  the string) and U+212A becomes U+006B.  Every other character with a lower-case form
  maps to characters outside ASCII in the same number of code units; the code looks only
  at the length of the result and at membership in 0-9a-f, so such a character stands for
  its own lower-case form here.
\<close>

definition lower_unit :: "u16 \<Rightarrow> jsstring" where
  "lower_unit c =
    (if 0x41 \<le> c \<and> c \<le> 0x5A then [c + 0x20]
     else if c = 0x130 then [0x69, 0x307]
     else if c = 0x212A then [0x6B]
     else [c])"

definition toLowerCase :: "jsstring \<Rightarrow> jsstring" where
  "toLowerCase s = concat (map lower_unit s)"

text \<open>A character the class \<^verbatim>\<open>[0-9a-f]\<close> matches.\<close>

definition is_lower_hex :: "u16 \<Rightarrow> bool" where
  "is_lower_hex c \<longleftrightarrow> (0x30 \<le> c \<and> c \<le> 0x39) \<or> (0x61 \<le> c \<and> c \<le> 0x66)"

text \<open>
  \<^verbatim>\<open>parseInt(s, 16)\<close> for a non-empty string of characters 0-9a-f, the only strings
  the code passes to it (both guards of \<^verbatim>\<open>parseHexInput\<close> come first).
\<close>

definition digit_value :: "u16 \<Rightarrow> nat" where
  "digit_value c = (if c \<le> 0x39 then unat c - 0x30 else unat c - 0x57)"

definition parseInt16 :: "jsstring \<Rightarrow> nat" where
  "parseInt16 s = foldl (\<lambda>acc c. acc * 16 + digit_value c) 0 s"

text \<open>
  The loop \<^verbatim>\<open>for (index = 0; index < clean.length; index += 2)\<close> pushing
  \<^verbatim>\<open>parseInt(clean.slice(index, index + 2), 16)\<close>.
\<close>

fun hex_pairs :: "jsstring \<Rightarrow> u8 list" where
  "hex_pairs (c1 # c2 # rest) = of_nat (parseInt16 [c1, c2]) # hex_pairs rest"
| "hex_pairs [c] = [of_nat (parseInt16 [c])]"
| "hex_pairs [] = []"

definition parseHexInput :: "jsstring \<Rightarrow> error + u8 list" where
  "parseHexInput v =
    (let clean = toLowerCase (remove_whitespace v) in
     if length clean = 0 then Inr []
     else if length clean mod 2 \<noteq> 0 then
       Inl (Error ''Hex input must contain an even number of digits.'')
     else if list_ex (\<lambda>c. \<not> is_lower_hex c) clean then
       Inl (Error ''Hex input can only contain 0-9 and a-f.'')
     else Inr (hex_pairs clean))"

text \<open>
  \<^verbatim>\<open>new TextEncoder().encode(value)\<close>: the string is read as Unicode scalar values (a
  surrogate pair is one code point, a lone surrogate becomes U+FFFD) and each is written
  in UTF-8.
\<close>

definition is_high_surrogate :: "u16 \<Rightarrow> bool" where
  "is_high_surrogate c \<longleftrightarrow> 0xD800 \<le> c \<and> c \<le> 0xDBFF"

definition is_low_surrogate :: "u16 \<Rightarrow> bool" where
  "is_low_surrogate c \<longleftrightarrow> 0xDC00 \<le> c \<and> c \<le> 0xDFFF"

definition scalar_value :: "u16 \<Rightarrow> nat" where
  "scalar_value c = (if is_high_surrogate c \<or> is_low_surrogate c then 0xFFFD else unat c)"

fun code_points :: "jsstring \<Rightarrow> nat list" where
  "code_points (c # d # rest) =
    (if is_high_surrogate c \<and> is_low_surrogate d
     then (0x10000 + (unat c - 0xD800) * 0x400 + (unat d - 0xDC00)) # code_points rest
     else scalar_value c # code_points (d # rest))"
| "code_points [c] = [scalar_value c]"
| "code_points [] = []"

definition utf8_bytes :: "nat \<Rightarrow> u8 list" where
  "utf8_bytes cp =
    (if cp < 0x80 then [of_nat cp]
     else if cp < 0x800 then [of_nat (0xC0 + cp div 0x40), of_nat (0x80 + cp mod 0x40)]
     else if cp < 0x10000 then
       [of_nat (0xE0 + cp div 0x1000), of_nat (0x80 + cp div 0x40 mod 0x40),
        of_nat (0x80 + cp mod 0x40)]
     else
       [of_nat (0xF0 + cp div 0x40000), of_nat (0x80 + cp div 0x1000 mod 0x40),
        of_nat (0x80 + cp div 0x40 mod 0x40), of_nat (0x80 + cp mod 0x40)])"

definition TextEncoder_encode :: "jsstring \<Rightarrow> u8 list" where
  "TextEncoder_encode s = concat (map utf8_bytes (code_points s))"

definition parseInputBytes :: "jsstring \<Rightarrow> input_type \<Rightarrow> error + u8 list" where
  "parseInputBytes v inputType =
    (if inputType = Hex then parseHexInput v else Inr (TextEncoder_encode v))"

section \<open>Padding and framing\<close>

text \<open>
  How many zero bytes are still to be pushed at a given length; it decreases with every
  iteration of the loop below.
\<close>

definition zeros_left :: "nat \<Rightarrow> nat" where
  "zeros_left n = (if n mod 64 \<le> 56 then 56 - n mod 64 else 120 - n mod 64)"

text \<open>\<^verbatim>\<open>while (padded.length % 64 !== 56) padded.push(0)\<close>\<close>

function pad_zeros :: "u8 list \<Rightarrow> u8 list" where
  "pad_zeros padded =
    (if length padded mod 64 \<noteq> 56 then pad_zeros (padded @ [0]) else padded)"
  by pat_completeness auto
termination
proof -
  have step: "zeros_left (Suc n) < zeros_left n" if a: "n mod 64 \<noteq> 56" for n
  proof -
    define m where "m = n mod 64"
    have b: "m < 64" by (simp add: m_def)
    have c: "Suc n mod 64 = (if Suc m = 64 then 0 else Suc m)"
      unfolding m_def by (rule mod_Suc)
    from a have d: "m \<noteq> 56" by (simp add: m_def)
    have "(if (if Suc m = 64 then 0 else Suc m) \<le> 56
           then 56 - (if Suc m = 64 then 0 else Suc m)
           else 120 - (if Suc m = 64 then 0 else Suc m))
          < (if m \<le> 56 then 56 - m else 120 - m)"
      using b d by (auto split: if_splits)
    then show ?thesis unfolding zeros_left_def c m_def [symmetric] .
  qed
  show ?thesis
    by (relation "measure (\<lambda>p. zeros_left (length p))")
       (simp_all add: step del: mod_Suc_eq)
qed

declare pad_zeros.simps [simp del]

text \<open>
  \<^verbatim>\<open>for (offset = 0n; offset < 8n; offset += 1n)
    padded.push(Number((bitLength >> (offset * 8n)) & 0xffn))\<close>, on unbounded integers.
\<close>

function length_loop :: "nat \<Rightarrow> nat \<Rightarrow> u8 list \<Rightarrow> u8 list" where
  "length_loop offset bitLength padded =
    (if offset < 8
     then length_loop (offset + 1) bitLength
            (padded @ [of_nat (drop_bit (offset * 8) bitLength AND 0xff)])
     else padded)"
  by pat_completeness auto
termination
  by (relation "measure (\<lambda>(offset, bitLength, padded). 8 - offset)") auto

declare length_loop.simps [simp del]

definition padBytes :: "u8 list \<Rightarrow> u8 list" where
  "padBytes bytes =
    (let bitLength = length bytes * 8;
         padded = bytes @ [0x80];
         padded = pad_zeros padded
     in length_loop 0 bitLength padded)"

section \<open>Chunk splitter\<close>

record chunk =
  chunk_index :: nat
  chunk_bytes :: "u8 list"
  chunk_words :: "u32 list"

text \<open>
  \<^verbatim>\<open>for (offset = 0; offset < bytes.length; offset += 64)\<close>;
  \<^verbatim>\<open>bytes.slice(offset, offset + 64)\<close> is \<open>take 64 (drop offset bytes)\<close>.
\<close>

function chunk_loop :: "nat \<Rightarrow> u8 list \<Rightarrow> chunk list \<Rightarrow> chunk list" where
  "chunk_loop offset bytes chunks =
    (if offset < length bytes
     then (let block = take 64 (drop offset bytes) in
           chunk_loop (offset + 64) bytes
             (chunks @
              [\<lparr>chunk_index = offset div 64,
                chunk_bytes = block,
                chunk_words =
                  map (\<lambda>wordIndex. bytesToWordLittleEndian block (wordIndex * 4)) [0..<16]\<rparr>]))
     else chunks)"
  by pat_completeness auto
termination
  by (relation "measure (\<lambda>(offset, bytes, chunks). length bytes - offset)") auto

declare chunk_loop.simps [simp del]

definition chunkBytes :: "u8 list \<Rightarrow> chunk list" where
  "chunkBytes bytes = chunk_loop 0 bytes []"

section \<open>Trace recorder\<close>

text \<open>The five kinds of event object, each with the fields the code gives it.\<close>

record preprocess_event =
  pp_inputType :: input_type
  pp_inputLengthBytes :: nat
  pp_inputLengthBits :: nat
  pp_paddedLengthBytes :: nat
  pp_paddedLengthBits :: nat
  pp_addedBytes :: nat
  pp_chunkCount :: nat
  pp_digestPreview :: string

record chunk_start_event =
  cs_chunkIndex :: nat
  cs_chunkWords :: "u32 list"
  cs_hashBefore :: "u32 list"
  cs_registersBefore :: "u32 list"
  cs_digestPreview :: string

record round_event =
  rd_chunkIndex :: nat
  rd_roundIndex :: nat
  rd_stepWithinChunk :: nat
  rd_functionName :: string
  rd_functionFormula :: string
  rd_indexFormula :: string
  rd_g :: nat
  rd_shift :: nat
  rd_constant :: u32
  rd_messageWord :: u32
  rd_functionResult :: u32
  rd_sum :: u32
  rd_rotated :: u32
  rd_registersBefore :: "u32 list"
  rd_registersAfter :: "u32 list"
  rd_digestPreview :: string

record chunk_end_event =
  ce_chunkIndex :: nat
  ce_hashBefore :: "u32 list"
  ce_registersBeforeAdd :: "u32 list"
  ce_hashAfter :: "u32 list"
  ce_digestAfterChunk :: string
  ce_digestPreview :: string

record done_event =
  dn_hash :: "u32 list"
  dn_digest :: string
  dn_chunkCount :: nat
  dn_digestPreview :: string

datatype event =
  Preprocess preprocess_event
| ChunkStart chunk_start_event
| Round round_event
| ChunkEnd chunk_end_event
| Done done_event

record trace =
  tr_inputType :: input_type
  tr_inputBytes :: "u8 list"
  tr_paddedBytes :: "u8 list"
  tr_chunks :: "chunk list"
  tr_events :: "event list"
  tr_digest :: string
  tr_constants :: "u32 list"
  tr_shifts :: "nat list"
  tr_initialHash :: "u32 list"

type_synonym registers = "u32 \<times> u32 \<times> u32 \<times> u32"

text \<open>
  The body of the loop \<^verbatim>\<open>for (let i = 0; i < 64; i += 1)\<close>: from the registers
  \<open>a, b, c, d\<close> to the registers after the round and the event pushed.
\<close>

definition round_body :: "chunk \<Rightarrow> u32 list \<Rightarrow> nat \<Rightarrow> registers \<Rightarrow> registers \<times> event" where
  "round_body chunk hashBefore i regs =
    (case regs of (aBefore, bBefore, cBefore, dBefore) \<Rightarrow>
     let (functionName, f, g) =
           (if i < 16 then
              (''F'', (bBefore AND cBefore) OR (NOT bBefore AND dBefore), i)
            else if i < 32 then
              (''G'', (dBefore AND bBefore) OR (NOT dBefore AND cBefore), (5 * i + 1) mod 16)
            else if i < 48 then
              (''H'', bBefore XOR cBefore XOR dBefore, (3 * i + 5) mod 16)
            else
              (''I'', cBefore XOR (bBefore OR NOT dBefore), (7 * i) mod 16));
         functionResult = f;
         sum = aBefore + functionResult + TABLE_K ! i + chunk_words chunk ! g;
         rotated = leftRotate sum (SHIFT_AMOUNTS ! i);
         nextB = bBefore + rotated;
         a = dBefore;
         d = cBefore;
         c = bBefore;
         b = nextB;
         previewHash =
           [hashBefore ! 0 + a, hashBefore ! 1 + b, hashBefore ! 2 + c, hashBefore ! 3 + d]
     in ((a, b, c, d),
         Round \<lparr>rd_chunkIndex = chunk_index chunk,
                rd_roundIndex = i,
                rd_stepWithinChunk = i + 1,
                rd_functionName = functionName,
                rd_functionFormula = ROUND_FORMULAS functionName,
                rd_indexFormula = INDEX_FORMULAS functionName,
                rd_g = g,
                rd_shift = SHIFT_AMOUNTS ! i,
                rd_constant = TABLE_K ! i,
                rd_messageWord = chunk_words chunk ! g,
                rd_functionResult = functionResult,
                rd_sum = sum,
                rd_rotated = rotated,
                rd_registersBefore = [aBefore, bBefore, cBefore, dBefore],
                rd_registersAfter = [a, b, c, d],
                rd_digestPreview = digestFromState previewHash\<rparr>))"

function round_loop ::
  "chunk \<Rightarrow> u32 list \<Rightarrow> nat \<Rightarrow> registers \<Rightarrow> event list \<Rightarrow> registers \<times> event list" where
  "round_loop chunk hashBefore i regs events =
    (if i < 64
     then (case round_body chunk hashBefore i regs of
             (regs', ev) \<Rightarrow> round_loop chunk hashBefore (i + 1) regs' (events @ [ev]))
     else (regs, events))"
  by pat_completeness auto
termination
  by (relation "measure (\<lambda>(chunk, hashBefore, i, regs, events). 64 - i)") auto

declare round_loop.simps [simp del]

text \<open>The loop \<^verbatim>\<open>for (const chunk of chunks)\<close>, threading \<open>hash\<close> and \<open>events\<close>.\<close>

fun chunks_loop :: "chunk list \<Rightarrow> u32 list \<Rightarrow> event list \<Rightarrow> u32 list \<times> event list" where
  "chunks_loop [] hash events = (hash, events)"
| "chunks_loop (chunk # rest) hash events =
    (let hashBefore = hash;
         a = hash ! 0; b = hash ! 1; c = hash ! 2; d = hash ! 3;
         events = events @
           [ChunkStart \<lparr>cs_chunkIndex = chunk_index chunk,
                        cs_chunkWords = chunk_words chunk,
                        cs_hashBefore = hashBefore,
                        cs_registersBefore = [a, b, c, d],
                        cs_digestPreview = digestFromState hashBefore\<rparr>]
     in case round_loop chunk hashBefore 0 (a, b, c, d) events of
          ((a, b, c, d), events) \<Rightarrow>
            (let hash = [hash ! 0 + a, hash ! 1 + b, hash ! 2 + c, hash ! 3 + d];
                 events = events @
                   [ChunkEnd \<lparr>ce_chunkIndex = chunk_index chunk,
                              ce_hashBefore = hashBefore,
                              ce_registersBeforeAdd = [a, b, c, d],
                              ce_hashAfter = hash,
                              ce_digestAfterChunk = digestFromState hash,
                              ce_digestPreview = digestFromState hash\<rparr>]
             in chunks_loop rest hash events))"

text \<open>
  Everything \<^verbatim>\<open>buildMd5Trace\<close> does after its first line, for the bytes that
  \<^verbatim>\<open>parseInputBytes\<close> returned.
\<close>

definition trace_of_bytes :: "input_type \<Rightarrow> u8 list \<Rightarrow> trace" where
  "trace_of_bytes inputType inputBytes =
    (let paddedBytes = padBytes inputBytes;
         chunks = chunkBytes paddedBytes;
         events =
           [Preprocess \<lparr>pp_inputType = inputType,
                        pp_inputLengthBytes = length inputBytes,
                        pp_inputLengthBits = length inputBytes * 8,
                        pp_paddedLengthBytes = length paddedBytes,
                        pp_paddedLengthBits = length paddedBytes * 8,
                        pp_addedBytes = length paddedBytes - length inputBytes,
                        pp_chunkCount = length chunks,
                        pp_digestPreview = digestFromState INITIAL_HASH\<rparr>];
         hash = INITIAL_HASH
     in case chunks_loop chunks hash events of
          (hash, events) \<Rightarrow>
            (let digest = digestFromState hash;
                 events = events @
                   [Done \<lparr>dn_hash = hash,
                          dn_digest = digest,
                          dn_chunkCount = length chunks,
                          dn_digestPreview = digest\<rparr>]
             in \<lparr>tr_inputType = inputType,
                 tr_inputBytes = inputBytes,
                 tr_paddedBytes = paddedBytes,
                 tr_chunks = chunks,
                 tr_events = events,
                 tr_digest = digest,
                 tr_constants = TABLE_K,
                 tr_shifts = SHIFT_AMOUNTS,
                 tr_initialHash = INITIAL_HASH\<rparr>))"

text \<open>
  An exception thrown by \<^verbatim>\<open>parseInputBytes\<close> leaves \<^verbatim>\<open>buildMd5Trace\<close> before
  anything else has been built.
\<close>

definition buildMd5Trace :: "jsstring \<Rightarrow> input_type \<Rightarrow> error + trace" where
  "buildMd5Trace inputValue inputType =
    (case parseInputBytes inputValue inputType of
       Inl e \<Rightarrow> Inl e
     | Inr inputBytes \<Rightarrow> Inr (trace_of_bytes inputType inputBytes))"

section \<open>Definitions in the words of the specification\<close>

text \<open>A character of a digest: a decimal digit or one of \<open>a\<close>..\<open>f\<close>.\<close>

definition is_lower_hex_char :: "char \<Rightarrow> bool" where
  "is_lower_hex_char c \<longleftrightarrow> c \<in> set ''0123456789abcdef''"

text \<open>
  Section 4.6: a byte as two hexadecimal digits, a word as its four bytes from the least
  significant one, a state as its words in order.
\<close>

definition spec_byte_hex :: "nat \<Rightarrow> string" where
  "spec_byte_hex n = [hex_digit (n div 16), hex_digit (n mod 16)]"

definition spec_le_bytes :: "u32 \<Rightarrow> nat list" where
  "spec_le_bytes w = map (\<lambda>k. unat w div 256 ^ k mod 256) [0..<4]"

definition spec_digest :: "u32 list \<Rightarrow> string" where
  "spec_digest state = concat (map (\<lambda>w. concat (map spec_byte_hex (spec_le_bytes w))) state)"

text \<open>Section 4.2: a length in bits as 8 bytes, least significant first.\<close>

definition spec_le64 :: "nat \<Rightarrow> u8 list" where
  "spec_le64 n = map (\<lambda>k. of_nat (n div 256 ^ k mod 256)) [0..<8]"

section \<open>Each loop as a function of its inputs\<close>

text \<open>
  What every loop of \<^verbatim>\<open>chunkBytes\<close> and \<^verbatim>\<open>buildMd5Trace\<close> builds, written without
  the accumulators; the lemmas below prove that the recursive models compute exactly these.
\<close>

text \<open>The chunk object \<^verbatim>\<open>chunkBytes\<close> pushes for \<open>offset = 64 * k\<close>.\<close>

definition chunk_at :: "u8 list \<Rightarrow> nat \<Rightarrow> chunk" where
  "chunk_at bytes k =
    (let block = take 64 (drop (64 * k) bytes) in
     \<lparr>chunk_index = k,
       chunk_bytes = block,
       chunk_words = map (\<lambda>wordIndex. bytesToWordLittleEndian block (wordIndex * 4)) [0..<16]\<rparr>)"

text \<open>The registers a chunk's round \<open>i\<close> starts from, given those round 0 starts from.\<close>

primrec regs_at :: "chunk \<Rightarrow> u32 list \<Rightarrow> registers \<Rightarrow> nat \<Rightarrow> registers" where
  "regs_at chunk hashBefore regs0 0 = regs0"
| "regs_at chunk hashBefore regs0 (Suc i) =
    fst (round_body chunk hashBefore i (regs_at chunk hashBefore regs0 i))"

definition hash_regs :: "u32 list \<Rightarrow> registers" where
  "hash_regs hash = (hash ! 0, hash ! 1, hash ! 2, hash ! 3)"

definition round_event_at :: "chunk \<Rightarrow> u32 list \<Rightarrow> nat \<Rightarrow> event" where
  "round_event_at chunk hashBefore i =
    snd (round_body chunk hashBefore i (regs_at chunk hashBefore (hash_regs hashBefore) i))"

text \<open>The hash after a chunk, and the 66 events of the chunk.\<close>

definition compress :: "chunk \<Rightarrow> u32 list \<Rightarrow> u32 list" where
  "compress chunk hash =
    (case regs_at chunk hash (hash_regs hash) 64 of
       (a, b, c, d) \<Rightarrow> [hash ! 0 + a, hash ! 1 + b, hash ! 2 + c, hash ! 3 + d])"

definition chunk_start_at :: "chunk \<Rightarrow> u32 list \<Rightarrow> event" where
  "chunk_start_at chunk hash =
    ChunkStart \<lparr>cs_chunkIndex = chunk_index chunk,
                 cs_chunkWords = chunk_words chunk,
                 cs_hashBefore = hash,
                 cs_registersBefore = [hash ! 0, hash ! 1, hash ! 2, hash ! 3],
                 cs_digestPreview = digestFromState hash\<rparr>"

definition chunk_end_at :: "chunk \<Rightarrow> u32 list \<Rightarrow> event" where
  "chunk_end_at chunk hash =
    (case regs_at chunk hash (hash_regs hash) 64 of
       (a, b, c, d) \<Rightarrow>
         ChunkEnd \<lparr>ce_chunkIndex = chunk_index chunk,
                    ce_hashBefore = hash,
                    ce_registersBeforeAdd = [a, b, c, d],
                    ce_hashAfter = compress chunk hash,
                    ce_digestAfterChunk = digestFromState (compress chunk hash),
                    ce_digestPreview = digestFromState (compress chunk hash)\<rparr>)"

definition chunk_events :: "chunk \<Rightarrow> u32 list \<Rightarrow> event list" where
  "chunk_events chunk hash =
    chunk_start_at chunk hash # map (round_event_at chunk hash) [0..<64] @ [chunk_end_at chunk hash]"

primrec loop_events :: "chunk list \<Rightarrow> u32 list \<Rightarrow> event list" where
  "loop_events [] hash = []"
| "loop_events (chunk # rest) hash = chunk_events chunk hash @ loop_events rest (compress chunk hash)"

text \<open>The hash entering chunk \<open>k\<close>.\<close>

definition hash_before :: "chunk list \<Rightarrow> nat \<Rightarrow> u32 list" where
  "hash_before chunks k = foldl (\<lambda>hash chunk. compress chunk hash) INITIAL_HASH (take k chunks)"

text \<open>Section 7: a character of \<open>[0-9a-fA-F]\<close>.\<close>

definition is_hex_digit :: "u16 \<Rightarrow> bool" where
  "is_hex_digit c \<longleftrightarrow>
    (0x30 \<le> c \<and> c \<le> 0x39) \<or> (0x41 \<le> c \<and> c \<le> 0x46) \<or> (0x61 \<le> c \<and> c \<le> 0x66)"

text \<open>A trace with another input type recorded, at the top level and in its Preprocess event.\<close>

definition set_input_type :: "input_type \<Rightarrow> trace \<Rightarrow> trace" where
  "set_input_type t tr =
    tr\<lparr>tr_inputType := t,
       tr_events :=
         map (\<lambda>e. case e of Preprocess p \<Rightarrow> Preprocess (p\<lparr>pp_inputType := t\<rparr>) | _ \<Rightarrow> e)
           (tr_events tr)\<rparr>"

section \<open>The round engine in the words of the specification\<close>

text \<open>Section 4.4, steps 1 and 2: the round family, its boolean function and word index.\<close>

definition spec_family :: "nat \<Rightarrow> string" where
  "spec_family i = (if i < 16 then ''F'' else if i < 32 then ''G'' else if i < 48 then ''H'' else ''I'')"

definition spec_f :: "nat \<Rightarrow> u32 \<Rightarrow> u32 \<Rightarrow> u32 \<Rightarrow> u32" where
  "spec_f i b c d =
    (if i < 16 then (b AND c) OR (NOT b AND d)
     else if i < 32 then (d AND b) OR (NOT d AND c)
     else if i < 48 then b XOR c XOR d
     else c XOR (b OR NOT d))"

definition spec_g :: "nat \<Rightarrow> nat" where
  "spec_g i =
    (if i < 16 then i
     else if i < 32 then (5 * i + 1) mod 16
     else if i < 48 then (3 * i + 5) mod 16
     else (7 * i) mod 16)"

text \<open>Steps 3 to 5: the sum, its circular left shift, the new registers.\<close>

definition spec_sum :: "u32 list \<Rightarrow> nat \<Rightarrow> registers \<Rightarrow> u32" where
  "spec_sum M i regs =
    (case regs of (a, b, c, d) \<Rightarrow> a + spec_f i b c d + TABLE_K ! i + M ! spec_g i)"

definition spec_rotated :: "u32 list \<Rightarrow> nat \<Rightarrow> registers \<Rightarrow> u32" where
  "spec_rotated M i regs = word_rotl (SHIFT_AMOUNTS ! i) (spec_sum M i regs)"

definition spec_round :: "u32 list \<Rightarrow> nat \<Rightarrow> registers \<Rightarrow> registers" where
  "spec_round M i regs = (case regs of (a, b, c, d) \<Rightarrow> (d, b + spec_rotated M i regs, b, c))"

text \<open>The registers after rounds \<open>0\<close> to \<open>n - 1\<close>.\<close>

primrec spec_rounds :: "u32 list \<Rightarrow> nat \<Rightarrow> registers \<Rightarrow> registers" where
  "spec_rounds M 0 regs = regs"
| "spec_rounds M (Suc n) regs = spec_round M n (spec_rounds M n regs)"

text \<open>The fold after round 63, position by position.\<close>

definition spec_fold :: "u32 list \<Rightarrow> registers \<Rightarrow> u32 list" where
  "spec_fold H regs = (case regs of (a, b, c, d) \<Rightarrow> [H ! 0 + a, H ! 1 + b, H ! 2 + c, H ! 3 + d])"

definition regs_list :: "registers \<Rightarrow> u32 list" where
  "regs_list regs = (case regs of (a, b, c, d) \<Rightarrow> [a, b, c, d])"

section \<open>The digest formatter\<close>

lemma and_ff: "(w :: u32) AND 0xff = take_bit 8 w"
proof -
  have "(0xff :: u32) = mask 8" by (simp add: mask_eq_exp_minus_1)
  then show ?thesis by (simp add: take_bit_eq_mask)
qed

lemma unat_and_ff: "unat ((w :: u32) AND 0xff) = unat w mod 256"
proof -
  have "unat (w AND 0xff) = unat (take_bit 8 w)"
    by (simp only: and_ff)
  also have "\<dots> = take_bit 8 (unat w)"
    by (rule unsigned_take_bit_eq)
  also have "\<dots> = unat w mod 256"
    by (simp add: take_bit_eq_mod)
  finally show ?thesis .
qed

lemma unat_drop: "unat (drop_bit n (w :: u32)) = unat w div 2 ^ n"
  by (simp only: unat_drop_bit_eq) (simp only: drop_bit_eq_div)

lemma hex_digit_in: "k < 16 \<Longrightarrow> is_lower_hex_char (hex_digit k)"
  unfolding hex_digit_def is_lower_hex_char_def by (rule nth_mem) simp

lemma byte_hex:
  assumes "n < 256"
  shows "padStart 2 (CHR ''0'') (toString16 n) = [hex_digit (n div 16), hex_digit (n mod 16)]"
proof (cases "n < 16")
  case True
  then show ?thesis
    by (simp add: toString16.simps [of n] padStart_def hex_digit_def)
next
  case False
  with assms have "n div 16 < 16" by simp
  with False show ?thesis
    by (simp add: toString16.simps [of n] toString16.simps [of "n div 16"] padStart_def)
qed

lemma upt4: "[0..<4] = [0, 1, 2, 3]"
  by (simp add: upt_rec)

lemma wordToHex_spec:
  "wordToHexLittleEndian w = concat (map spec_byte_hex (spec_le_bytes w))"
proof -
  have m: "\<And>x. x mod 256 < (256::nat)" by simp
  have "map (\<lambda>byte. padStart 2 (CHR ''0'') (toString16 (unat byte)))
          [w AND 0xff, drop_bit 8 w AND 0xff, drop_bit 16 w AND 0xff, drop_bit 24 w AND 0xff]
        = map spec_byte_hex
          [unat w mod 256, unat w div 2 ^ 8 mod 256, unat w div 2 ^ 16 mod 256,
           unat w div 2 ^ 24 mod 256]"
    by (simp only: list.map unat_and_ff unat_drop byte_hex [OF m] spec_byte_hex_def)
  moreover have "spec_le_bytes w =
          [unat w mod 256, unat w div 2 ^ 8 mod 256, unat w div 2 ^ 16 mod 256,
           unat w div 2 ^ 24 mod 256]"
    by (simp add: spec_le_bytes_def upt4)
  ultimately show ?thesis
    by (simp only: wordToHexLittleEndian_def Let_def)
qed

lemma wordToHex_length: "length (wordToHexLittleEndian w) = 8"
  by (simp add: wordToHex_spec spec_le_bytes_def upt4 spec_byte_hex_def)

lemma wordToHex_chars: "list_all is_lower_hex_char (wordToHexLittleEndian w)"
  unfolding wordToHex_spec spec_le_bytes_def upt4 spec_byte_hex_def
  by (simp add: hex_digit_in)

lemma digest_spec: "digestFromState state = spec_digest state"
proof -
  have "wordToHexLittleEndian = (\<lambda>w. concat (map spec_byte_hex (spec_le_bytes w)))"
    by (rule ext) (rule wordToHex_spec)
  then show ?thesis by (simp add: digestFromState_def spec_digest_def)
qed

lemma digest_length: "length (digestFromState state) = 8 * length state"
  by (induction state) (simp_all add: digestFromState_def wordToHex_length)

lemma digest_chars: "list_all is_lower_hex_char (digestFromState state)"
  by (induction state) (simp_all add: digestFromState_def wordToHex_chars)

section \<open>Padding\<close>

lemma zeros_left_done: "n mod 64 = 56 \<Longrightarrow> zeros_left n = 0"
  by (simp add: zeros_left_def)

lemma zeros_left_step:
  assumes "n mod 64 \<noteq> 56"
  shows "zeros_left n = Suc (zeros_left (Suc n))"
proof -
  define m where "m = n mod 64"
  have b: "m < 64" by (simp add: m_def)
  have c: "Suc n mod 64 = (if Suc m = 64 then 0 else Suc m)"
    unfolding m_def by (rule mod_Suc)
  from assms have d: "m \<noteq> 56" by (simp add: m_def)
  have "(if m \<le> 56 then 56 - m else 120 - m) =
        Suc (if (if Suc m = 64 then 0 else Suc m) \<le> 56
             then 56 - (if Suc m = 64 then 0 else Suc m)
             else 120 - (if Suc m = 64 then 0 else Suc m))"
    using b d by (auto split: if_splits)
  then show ?thesis unfolding zeros_left_def c m_def [symmetric] .
qed

lemma zeros_left_less: "zeros_left n < 64"
proof -
  have "n mod 64 < 64" by simp
  then show ?thesis unfolding zeros_left_def by (auto split: if_splits)
qed

lemma zeros_left_mod: "(n + zeros_left n) mod 64 = 56"
proof -
  define m where "m = n mod 64"
  have b: "m < 64" by (simp add: m_def)
  have z: "zeros_left n = (if m \<le> 56 then 56 - m else 120 - m)"
    by (simp add: zeros_left_def m_def)
  have "(n + zeros_left n) mod 64 = (m + zeros_left n) mod 64"
    unfolding m_def by (simp add: mod_add_left_eq)
  also have "\<dots> = 56"
    unfolding z using b by (auto split: if_splits)
  finally show ?thesis .
qed

lemma pad_zeros_eq: "pad_zeros p = p @ replicate (zeros_left (length p)) 0"
proof (induction p rule: pad_zeros.induct)
  case (1 padded)
  show ?case
  proof (cases "length padded mod 64 = 56")
    case True
    then show ?thesis
      by (simp add: pad_zeros.simps [of padded] zeros_left_done)
  next
    case False
    have "pad_zeros padded = pad_zeros (padded @ [0])"
      using False by (simp add: pad_zeros.simps [of padded])
    also have "\<dots> = (padded @ [0]) @ replicate (zeros_left (Suc (length padded))) 0"
      using "1.IH" [OF False] by simp
    also have "\<dots> = padded @ replicate (Suc (zeros_left (Suc (length padded)))) 0"
      by simp
    also have "\<dots> = padded @ replicate (zeros_left (length padded)) 0"
      by (simp only: zeros_left_step [OF False])
    finally show ?thesis .
  qed
qed

lemma length_loop_eq:
  "offset \<le> 8 \<Longrightarrow>
   length_loop offset bitLength p =
   p @ map (\<lambda>k. of_nat (drop_bit (k * 8) bitLength AND 0xff)) [offset..<8]"
proof (induction offset bitLength p rule: length_loop.induct)
  case (1 offset bitLength padded)
  show ?case
  proof (cases "offset < 8")
    case True
    then have "[offset..<8] = offset # [offset + 1..<8]"
      by (simp add: upt_rec)
    with True "1.IH" [OF True] show ?thesis
      by (simp add: length_loop.simps [of offset])
  next
    case False
    with "1.prems" have "offset = 8" by simp
    then show ?thesis
      by (simp add: length_loop.simps [of 8])
  qed
qed

lemma length_byte:
  assumes "k < 8"
  shows "drop_bit (k * 8) (n :: nat) AND 0xff = n mod 2 ^ 64 div 256 ^ k mod 256"
proof -
  have "(0xff :: nat) = mask 8" by (simp add: mask_eq_exp_minus_1)
  then have "drop_bit (k * 8) n AND 0xff = take_bit 8 (drop_bit (k * 8) n)"
    by (simp add: take_bit_eq_mask)
  also have "\<dots> = take_bit 8 (drop_bit (k * 8) (take_bit 64 n))"
  proof -
    from assms have "8 \<le> 64 - k * 8" by simp
    then show ?thesis by (simp add: drop_bit_take_bit min_def)
  qed
  also have "\<dots> = n mod 2 ^ 64 div 2 ^ (k * 8) mod 256"
    by (simp add: take_bit_eq_mod drop_bit_eq_div)
  also have "(2::nat) ^ (k * 8) = 256 ^ k"
  proof -
    have "(256::nat) ^ k = (2 ^ 8) ^ k" by simp
    also have "\<dots> = 2 ^ (8 * k)" by (rule power_mult [symmetric])
    finally show ?thesis by (simp only: mult.commute)
  qed
  finally show ?thesis .
qed

lemma length_loop_spec: "length_loop 0 n p = p @ spec_le64 (n mod 2 ^ 64)"
proof -
  have "map (\<lambda>k. of_nat (drop_bit (k * 8) n AND 0xff) :: u8) [0..<8] =
        map (\<lambda>k. of_nat (n mod 2 ^ 64 div 256 ^ k mod 256)) [0..<8]"
    by (rule map_cong) (simp_all add: length_byte)
  then show ?thesis
    by (simp add: length_loop_eq spec_le64_def)
qed

lemma padBytes_eq:
  "padBytes bs =
   bs @ [0x80] @ replicate (zeros_left (length bs + 1)) 0 @ spec_le64 ((8 * length bs) mod 2 ^ 64)"
  by (simp add: padBytes_def Let_def pad_zeros_eq length_loop_spec mult.commute)

lemma length_spec_le64: "length (spec_le64 n) = 8"
  by (simp add: spec_le64_def)

lemma length_padBytes: "length (padBytes bs) = length bs + 1 + zeros_left (length bs + 1) + 8"
  by (simp add: padBytes_eq length_spec_le64)

lemma length_padBytes_mod: "length (padBytes bs) mod 64 = 0"
proof -
  have "(length bs + 1 + zeros_left (length bs + 1) + 8) mod 64 =
        ((length bs + 1 + zeros_left (length bs + 1)) mod 64 + 8) mod 64"
    by (simp only: mod_add_left_eq)
  also have "\<dots> = 0"
    by (simp only: zeros_left_mod) simp
  finally show ?thesis by (simp only: length_padBytes)
qed

section \<open>The chunk splitter\<close>

lemma chunk_loop_eq:
  "chunk_loop (64 * k) bs acc = acc @ map (chunk_at bs) [k..<(length bs + 63) div 64]"
proof (induction "64 * k" bs acc arbitrary: k rule: chunk_loop.induct)
  case (1 bytes chunks)
  show ?case
  proof (cases "64 * k < length bytes")
    case True
    then have lt: "k < (length bytes + 63) div 64" by simp
    have step: "chunk_loop (64 * k + 64) bytes (chunks @ [chunk_at bytes k]) =
          (chunks @ [chunk_at bytes k]) @
          map (chunk_at bytes) [Suc k..<(length bytes + 63) div 64]"
      using "1.hyps" [OF True refl, of "Suc k"] by (simp add: chunk_at_def Let_def add.commute)
    have "chunk_loop (64 * k) bytes chunks =
          chunk_loop (64 * k + 64) bytes (chunks @ [chunk_at bytes k])"
      using True by (simp add: chunk_loop.simps [of "64 * k"] chunk_at_def Let_def)
    also note step
    also have "(chunks @ [chunk_at bytes k]) @
          map (chunk_at bytes) [Suc k..<(length bytes + 63) div 64] =
          chunks @ map (chunk_at bytes) [k..<(length bytes + 63) div 64]"
      using lt by (simp add: upt_conv_Cons)
    finally show ?thesis .
  next
    case False
    then have "\<not> k < (length bytes + 63) div 64" by simp
    with False show ?thesis
      by (simp add: chunk_loop.simps [of "64 * k"])
  qed
qed

lemma chunkBytes_eq: "chunkBytes bs = map (chunk_at bs) [0..<(length bs + 63) div 64]"
  using chunk_loop_eq [of 0 bs "[]"] by (simp add: chunkBytes_def)

lemma length_chunkBytes: "length (chunkBytes bs) = (length bs + 63) div 64"
  by (simp add: chunkBytes_eq)

lemma chunkBytes_nth: "k < length (chunkBytes bs) \<Longrightarrow> chunkBytes bs ! k = chunk_at bs k"
  by (simp add: chunkBytes_eq)

lemma chunk_index_nth: "k < length (chunkBytes bs) \<Longrightarrow> chunk_index (chunkBytes bs ! k) = k"
  by (simp add: chunkBytes_nth chunk_at_def Let_def)

section \<open>The round loop and the chunk loop\<close>

lemma round_loop_eq:
  "regs = regs_at chunk hb regs0 i \<Longrightarrow> i \<le> 64 \<Longrightarrow>
   round_loop chunk hb i regs evs =
   (regs_at chunk hb regs0 64,
    evs @ map (\<lambda>j. snd (round_body chunk hb j (regs_at chunk hb regs0 j))) [i..<64])"
proof (induction chunk hb i regs evs rule: round_loop.induct)
  case (1 chunk hashBefore i regs events)
  show ?case
  proof (cases "i < 64")
    case True
    obtain regs' ev where rb: "round_body chunk hashBefore i regs = (regs', ev)"
      by (cases "round_body chunk hashBefore i regs")
    have r': "regs' = regs_at chunk hashBefore regs0 (i + 1)"
      using rb "1.prems"(1) by simp
    have ev: "ev = snd (round_body chunk hashBefore i (regs_at chunk hashBefore regs0 i))"
      using rb "1.prems"(1) by simp
    have "round_loop chunk hashBefore i regs events =
          round_loop chunk hashBefore (i + 1) regs' (events @ [ev])"
      using True rb by (simp add: round_loop.simps [of chunk hashBefore i])
    also have "\<dots> = (regs_at chunk hashBefore regs0 64,
        (events @ [ev]) @
        map (\<lambda>j. snd (round_body chunk hashBefore j (regs_at chunk hashBefore regs0 j)))
          [i + 1..<64])"
      using "1.IH" [OF True rb [symmetric] r'] True by simp
    also have "(events @ [ev]) @
        map (\<lambda>j. snd (round_body chunk hashBefore j (regs_at chunk hashBefore regs0 j)))
          [i + 1..<64] =
        events @
        map (\<lambda>j. snd (round_body chunk hashBefore j (regs_at chunk hashBefore regs0 j)))
          [i..<64]"
      using True by (simp add: upt_conv_Cons ev)
    finally show ?thesis .
  next
    case False
    with "1.prems" have "i = 64" by simp
    with "1.prems" show ?thesis
      by (simp add: round_loop.simps [of chunk hashBefore 64])
  qed
qed

lemma round_loop_chunk:
  "round_loop chunk hash 0 (hash ! 0, hash ! 1, hash ! 2, hash ! 3) evs =
   (regs_at chunk hash (hash_regs hash) 64, evs @ map (round_event_at chunk hash) [0..<64])"
proof -
  have "(\<lambda>j. snd (round_body chunk hash j (regs_at chunk hash (hash_regs hash) j))) =
        round_event_at chunk hash"
    by (rule ext) (simp add: round_event_at_def)
  then show ?thesis
    using round_loop_eq [of "hash_regs hash" chunk hash "hash_regs hash" 0 evs]
    by (simp add: hash_regs_def)
qed

lemma chunks_loop_eq:
  "chunks_loop chunks hash evs =
   (foldl (\<lambda>hash chunk. compress chunk hash) hash chunks, evs @ loop_events chunks hash)"
proof (induction chunks arbitrary: hash evs)
  case Nil
  show ?case by simp
next
  case (Cons chunk rest)
  obtain a b c d where r: "regs_at chunk hash (hash_regs hash) 64 = (a, b, c, d)"
    by (cases "regs_at chunk hash (hash_regs hash) 64") auto
  have "chunks_loop (chunk # rest) hash evs =
        chunks_loop rest (compress chunk hash) (evs @ chunk_events chunk hash)"
    unfolding chunks_loop.simps Let_def round_loop_chunk compress_def chunk_events_def
      chunk_start_at_def chunk_end_at_def r prod.case
    by simp
  then show ?case
    by (simp add: Cons.IH)
qed

lemma length_chunk_events: "length (chunk_events chunk hash) = 66"
  by (simp add: chunk_events_def)

lemma length_loop_events: "length (loop_events chunks hash) = 66 * length chunks"
  by (induction chunks arbitrary: hash) (simp_all add: length_chunk_events)

lemma loop_events_nth:
  "k < length chunks \<Longrightarrow> j < 66 \<Longrightarrow>
   loop_events chunks hash ! (66 * k + j) =
   chunk_events (chunks ! k) (foldl (\<lambda>hash chunk. compress chunk hash) hash (take k chunks)) ! j"
proof (induction chunks arbitrary: hash k)
  case Nil
  then show ?case by simp
next
  case (Cons chunk rest)
  show ?case
  proof (cases k)
    case 0
    with Cons.prems show ?thesis
      by (simp add: nth_append length_chunk_events)
  next
    case (Suc k')
    with Cons.prems have k': "k' < length rest" by simp
    have "loop_events (chunk # rest) hash ! (66 * k + j) =
          loop_events rest (compress chunk hash) ! (66 * k' + j)"
      using Suc by (simp add: nth_append length_chunk_events)
    also have "\<dots> = chunk_events (rest ! k')
          (foldl (\<lambda>hash chunk. compress chunk hash) (compress chunk hash) (take k' rest)) ! j"
      by (rule Cons.IH [OF k' Cons.prems(2)])
    finally show ?thesis using Suc by simp
  qed
qed

lemma trace_events:
  "tr_events (trace_of_bytes t bs) =
   Preprocess \<lparr>pp_inputType = t,
               pp_inputLengthBytes = length bs,
               pp_inputLengthBits = length bs * 8,
               pp_paddedLengthBytes = length (padBytes bs),
               pp_paddedLengthBits = length (padBytes bs) * 8,
               pp_addedBytes = length (padBytes bs) - length bs,
               pp_chunkCount = length (chunkBytes (padBytes bs)),
               pp_digestPreview = digestFromState INITIAL_HASH\<rparr> #
   loop_events (chunkBytes (padBytes bs)) INITIAL_HASH @
   [Done \<lparr>dn_hash = hash_before (chunkBytes (padBytes bs)) (length (chunkBytes (padBytes bs))),
          dn_digest = tr_digest (trace_of_bytes t bs),
          dn_chunkCount = length (chunkBytes (padBytes bs)),
          dn_digestPreview = tr_digest (trace_of_bytes t bs)\<rparr>]"
  by (simp add: trace_of_bytes_def Let_def chunks_loop_eq hash_before_def)

lemma trace_digest:
  "tr_digest (trace_of_bytes t bs) =
   digestFromState (hash_before (chunkBytes (padBytes bs)) (length (chunkBytes (padBytes bs))))"
  by (simp add: trace_of_bytes_def Let_def chunks_loop_eq hash_before_def)

lemma trace_chunks: "tr_chunks (trace_of_bytes t bs) = chunkBytes (padBytes bs)"
  by (simp add: trace_of_bytes_def Let_def chunks_loop_eq)

lemma trace_fields:
  "tr_inputType (trace_of_bytes t bs) = t"
  "tr_inputBytes (trace_of_bytes t bs) = bs"
  "tr_paddedBytes (trace_of_bytes t bs) = padBytes bs"
  "tr_constants (trace_of_bytes t bs) = TABLE_K"
  "tr_shifts (trace_of_bytes t bs) = SHIFT_AMOUNTS"
  "tr_initialHash (trace_of_bytes t bs) = INITIAL_HASH"
  by (simp_all add: trace_of_bytes_def Let_def chunks_loop_eq)

lemma length_compress: "length (compress chunk hash) = 4"
  by (cases "regs_at chunk hash (hash_regs hash) 64") (simp add: compress_def)

lemma length_foldl_compress:
  "length hash = 4 \<Longrightarrow>
   length (foldl (\<lambda>hash chunk. compress chunk hash) hash chunks) = 4"
  by (induction chunks arbitrary: hash) (simp_all add: length_compress)

lemma length_hash_before: "length (hash_before chunks k) = 4"
  unfolding hash_before_def by (rule length_foldl_compress) (simp add: INITIAL_HASH_def)

lemma list4: "length xs = 4 \<Longrightarrow> xs = [xs ! 0, xs ! 1, xs ! 2, xs ! 3]"
  by (rule nth_equalityI) (auto simp: nth_Cons' numeral_eq_Suc less_Suc_eq)

lemma trace_of_bytes_eq:
  "trace_of_bytes t bs =
   \<lparr>tr_inputType = t,
    tr_inputBytes = bs,
    tr_paddedBytes = padBytes bs,
    tr_chunks = chunkBytes (padBytes bs),
    tr_events =
      Preprocess \<lparr>pp_inputType = t,
                  pp_inputLengthBytes = length bs,
                  pp_inputLengthBits = length bs * 8,
                  pp_paddedLengthBytes = length (padBytes bs),
                  pp_paddedLengthBits = length (padBytes bs) * 8,
                  pp_addedBytes = length (padBytes bs) - length bs,
                  pp_chunkCount = length (chunkBytes (padBytes bs)),
                  pp_digestPreview = digestFromState INITIAL_HASH\<rparr> #
      loop_events (chunkBytes (padBytes bs)) INITIAL_HASH @
      [Done \<lparr>dn_hash = hash_before (chunkBytes (padBytes bs)) (length (chunkBytes (padBytes bs))),
             dn_digest = digestFromState
               (hash_before (chunkBytes (padBytes bs)) (length (chunkBytes (padBytes bs)))),
             dn_chunkCount = length (chunkBytes (padBytes bs)),
             dn_digestPreview = digestFromState
               (hash_before (chunkBytes (padBytes bs)) (length (chunkBytes (padBytes bs))))\<rparr>],
    tr_digest = digestFromState
      (hash_before (chunkBytes (padBytes bs)) (length (chunkBytes (padBytes bs)))),
    tr_constants = TABLE_K,
    tr_shifts = SHIFT_AMOUNTS,
    tr_initialHash = INITIAL_HASH\<rparr>"
  by (simp add: trace_of_bytes_def Let_def chunks_loop_eq hash_before_def)

lemma round_body_Round: "\<exists>r. snd (round_body chunk hb i regs) = Round r"
  by (cases regs) (simp add: round_body_def Let_def split: prod.splits)

lemma chunk_end_ChunkEnd: "\<exists>ce. chunk_end_at chunk hash = ChunkEnd ce"
  by (cases "regs_at chunk hash (hash_regs hash) 64") (simp add: chunk_end_at_def)

lemma retag_chunk_events:
  "map (\<lambda>e. case e of Preprocess p \<Rightarrow> Preprocess (p\<lparr>pp_inputType := t\<rparr>) | _ \<Rightarrow> e)
     (chunk_events chunk hash) = chunk_events chunk hash"
proof -
  have r: "(case round_event_at chunk hash i of
              Preprocess p \<Rightarrow> Preprocess (p\<lparr>pp_inputType := t\<rparr>)
            | _ \<Rightarrow> round_event_at chunk hash i) = round_event_at chunk hash i" for i
    using round_body_Round [of chunk hash i "regs_at chunk hash (hash_regs hash) i"]
    by (auto simp: round_event_at_def)
  have e: "(case chunk_end_at chunk hash of
              Preprocess p \<Rightarrow> Preprocess (p\<lparr>pp_inputType := t\<rparr>)
            | _ \<Rightarrow> chunk_end_at chunk hash) = chunk_end_at chunk hash"
    using chunk_end_ChunkEnd [of chunk hash] by auto
  show ?thesis
    by (simp add: chunk_events_def r e chunk_start_at_def)
qed

lemma retag_loop_events:
  "map (\<lambda>e. case e of Preprocess p \<Rightarrow> Preprocess (p\<lparr>pp_inputType := t\<rparr>) | _ \<Rightarrow> e)
     (loop_events chunks hash) = loop_events chunks hash"
  by (induction chunks arbitrary: hash) (simp_all add: retag_chunk_events)

lemma trace_retag: "trace_of_bytes t bs = set_input_type t (trace_of_bytes t' bs)"
  by (simp add: trace_of_bytes_eq set_input_type_def retag_loop_events)

section \<open>Two messages computed\<close>

lemma fst_round_body:
  "fst (round_body chunk hb i (a, b, c, d)) =
   (d,
    word_of_nat (unat (b + leftRotate (a +
      (if i < 16 then (b AND c) OR (NOT b AND d)
       else if i < 32 then (d AND b) OR (NOT d AND c)
       else if i < 48 then b XOR c XOR d
       else c XOR (b OR NOT d)) + TABLE_K ! i +
      chunk_words chunk !
      (if i < 16 then i else if i < 32 then (5 * i + 1) mod 16
       else if i < 48 then (3 * i + 5) mod 16 else (7 * i) mod 16)) (SHIFT_AMOUNTS ! i))),
    b, c)"
  by (simp add: round_body_def Let_def)

lemma regs_at_numeral:
  "regs_at chunk hb r0 (numeral n) =
   fst (round_body chunk hb (pred_numeral n) (regs_at chunk hb r0 (pred_numeral n)))"
  by (simp add: numeral_eq_Suc)

lemma replicate_num: "replicate (numeral n) x = x # replicate (pred_numeral n) x"
  by (simp add: numeral_eq_Suc)

lemma padBytes_empty:
  "padBytes [] = 0x80 # replicate 55 0 @ [0, 0, 0, 0, 0, 0, 0, 0]"
  by (simp add: padBytes_eq zeros_left_def spec_le64_def upt_rec)

lemma padBytes_abc:
  "padBytes [0x61, 0x62, 0x63] = [0x61, 0x62, 0x63, 0x80] @ replicate 52 0 @ [24, 0, 0, 0, 0, 0, 0, 0]"
  by (simp add: padBytes_eq zeros_left_def spec_le64_def upt_rec)

lemma chunks_empty: "chunkBytes (padBytes []) = [chunk_at (padBytes []) 0]"
proof -
  have "length (padBytes []) = 64" by (simp add: padBytes_empty)
  then show ?thesis by (simp add: chunkBytes_eq)
qed

lemma chunks_abc:
  "chunkBytes (padBytes [0x61, 0x62, 0x63]) = [chunk_at (padBytes [0x61, 0x62, 0x63]) 0]"
proof -
  have "length (padBytes [0x61, 0x62, 0x63]) = 64" by (simp add: padBytes_abc)
  then show ?thesis by (simp add: chunkBytes_eq)
qed

lemma words_empty:
  "chunk_words (chunk_at (padBytes []) 0) = [0x80, 0, 0, 0, 0, 0, 0, 0, 0, 0, 0, 0, 0, 0, 0, 0]"
  by (simp add: chunk_at_def Let_def padBytes_empty upt_rec bytesToWordLittleEndian_def
      byte_at_def replicate_num)

lemma words_abc:
  "chunk_words (chunk_at (padBytes [0x61, 0x62, 0x63]) 0) =
   [0x80636261, 0, 0, 0, 0, 0, 0, 0, 0, 0, 0, 0, 0, 0, 24, 0]"
  by (simp add: chunk_at_def Let_def padBytes_abc upt_rec bytesToWordLittleEndian_def
      byte_at_def replicate_num)

lemma rounds_empty:
  "regs_at (chunk_at (padBytes []) 0) INITIAL_HASH (hash_regs INITIAL_HASH) 64 =
   (0x7246fad3, 0x14e45506, 0xff4ea3eb, 0x6e10a476)"
  by (simp add: regs_at_numeral fst_round_body words_empty INITIAL_HASH_def hash_regs_def
      TABLE_K_def SHIFT_AMOUNTS_def leftRotate_def)

lemma rounds_abc:
  "regs_at (chunk_at (padBytes [0x61, 0x62, 0x63]) 0) INITIAL_HASH (hash_regs INITIAL_HASH) 64 =
   (0x310ade8f, 0xc08226b3, 0xe484b9d8, 0x624d8cb2)"
  by (simp add: regs_at_numeral fst_round_body words_abc INITIAL_HASH_def hash_regs_def
      TABLE_K_def SHIFT_AMOUNTS_def leftRotate_def)

lemma compress_empty:
  "compress (chunk_at (padBytes []) 0) INITIAL_HASH =
   [0xd98c1dd4, 0x04b2008f, 0x980980e9, 0x7e42f8ec]"
  unfolding compress_def rounds_empty by (simp add: INITIAL_HASH_def)

lemma compress_abc:
  "compress (chunk_at (padBytes [0x61, 0x62, 0x63]) 0) INITIAL_HASH =
   [0x98500190, 0xb04fd23c, 0x7d3f96d6, 0x727fe128]"
  unfolding compress_def rounds_abc by (simp add: INITIAL_HASH_def)

lemma digest_d41d:
  "digestFromState [0xd98c1dd4, 0x04b2008f, 0x980980e9, 0x7e42f8ec] =
   ''d41d8cd98f00b204e9800998ecf8427e''"
  by (simp add: digestFromState_def wordToHexLittleEndian_def padStart_def toString16.simps
      hex_digit_def)

lemma digest_9001:
  "digestFromState [0x98500190, 0xb04fd23c, 0x7d3f96d6, 0x727fe128] =
   ''900150983cd24fb0d6963f7d28e17f72''"
  by (simp add: digestFromState_def wordToHexLittleEndian_def padStart_def toString16.simps
      hex_digit_def)

lemma trace_digest_empty:
  "tr_digest (trace_of_bytes t []) = ''d41d8cd98f00b204e9800998ecf8427e''"
  by (simp add: trace_digest chunks_empty hash_before_def compress_empty digest_d41d)

lemma trace_digest_abc:
  "tr_digest (trace_of_bytes t [0x61, 0x62, 0x63]) = ''900150983cd24fb0d6963f7d28e17f72''"
  by (simp add: trace_digest chunks_abc hash_before_def compress_abc digest_9001)

lemma js_empty: "js [] = []"
  by (simp add: js_def)

lemma js_abc: "js ''abc'' = [0x61, 0x62, 0x63]"
  by (simp add: js_def)

lemma encode_empty: "TextEncoder_encode [] = []"
  by (simp add: TextEncoder_encode_def)

lemma encode_abc: "TextEncoder_encode [0x61, 0x62, 0x63] = [0x61, 0x62, 0x63]"
  by (simp add: TextEncoder_encode_def utf8_bytes_def scalar_value_def is_high_surrogate_def
      is_low_surrogate_def)

section \<open>The byte normalizer\<close>

lemma is_hex_digit_nat:
  "is_hex_digit c \<longleftrightarrow>
   (48 \<le> unat c \<and> unat c \<le> 57) \<or> (65 \<le> unat c \<and> unat c \<le> 70) \<or>
   (97 \<le> unat c \<and> unat c \<le> 102)"
  by (simp add: is_hex_digit_def word_le_nat_alt)

lemma is_lower_hex_nat:
  "is_lower_hex c \<longleftrightarrow>
   (48 \<le> unat c \<and> unat c \<le> 57) \<or> (97 \<le> unat c \<and> unat c \<le> 102)"
  by (simp add: is_lower_hex_def word_le_nat_alt)

lemma lower_unit_nat:
  "lower_unit c =
   (if 65 \<le> unat c \<and> unat c \<le> 90 then [c + 0x20]
    else if unat c = 304 then [0x69, 0x307]
    else if unat c = 8490 then [0x6B]
    else [c])"
  by (simp add: lower_unit_def word_le_nat_alt word_unat_eq_iff)

lemma unat_upper: "unat (c :: u16) \<le> 90 \<Longrightarrow> unat (c + 0x20) = unat c + 32"
  by (simp add: unat_word_ariths)

lemma lower_unit_hex:
  assumes "is_hex_digit c"
  shows "\<exists>c'. lower_unit c = [c'] \<and> is_lower_hex c'"
proof (cases "65 \<le> unat c \<and> unat c \<le> 90")
  case True
  then have "unat (c + 0x20) = unat c + 32"
    by (simp add: unat_upper)
  with True assms have "is_lower_hex (c + 0x20)"
    by (simp add: is_lower_hex_nat is_hex_digit_nat)
  with True show ?thesis by (simp add: lower_unit_nat)
next
  case False
  with assms have "is_lower_hex c" "unat c \<noteq> 304" "unat c \<noteq> 8490"
    by (auto simp: is_hex_digit_nat is_lower_hex_nat)
  with False show ?thesis by (auto simp: lower_unit_nat)
qed

lemma lower_unit_nonhex:
  assumes "\<not> is_hex_digit c"
  shows "list_ex (\<lambda>x. \<not> is_lower_hex x) (lower_unit c)"
proof (cases "65 \<le> unat c \<and> unat c \<le> 90")
  case True
  then have "unat (c + 0x20) = unat c + 32"
    by (simp add: unat_upper)
  with True assms have "\<not> is_lower_hex (c + 0x20)"
    by (simp add: is_lower_hex_nat is_hex_digit_nat)
  with True show ?thesis by (simp add: lower_unit_nat)
next
  case False
  from assms have "\<not> is_lower_hex c"
    by (auto simp: is_hex_digit_nat is_lower_hex_nat)
  with False show ?thesis
    by (auto simp: lower_unit_nat is_lower_hex_nat)
qed

lemma toLowerCase_Cons: "toLowerCase (c # s) = lower_unit c @ toLowerCase s"
  by (simp add: toLowerCase_def)

lemma toLowerCase_Nil: "toLowerCase [] = []"
  by (simp add: toLowerCase_def)

lemma lower_unit_not_Nil: "lower_unit c \<noteq> []"
  by (simp add: lower_unit_def)

lemma toLowerCase_empty: "toLowerCase s = [] \<longleftrightarrow> s = []"
  by (cases s) (simp_all add: toLowerCase_Nil toLowerCase_Cons lower_unit_not_Nil)

lemma toLowerCase_hex:
  "list_all is_hex_digit s \<Longrightarrow>
   length (toLowerCase s) = length s \<and> list_all is_lower_hex (toLowerCase s)"
proof (induction s)
  case Nil
  show ?case by (simp add: toLowerCase_Nil)
next
  case (Cons c s)
  then have "is_hex_digit c" by simp
  then obtain c' where "lower_unit c = [c']" "is_lower_hex c'"
    using lower_unit_hex by blast
  with Cons show ?case by (simp add: toLowerCase_Cons)
qed

lemma toLowerCase_nonhex:
  "list_ex (\<lambda>c. \<not> is_hex_digit c) s \<Longrightarrow> list_ex (\<lambda>c. \<not> is_lower_hex c) (toLowerCase s)"
proof (induction s)
  case Nil
  then show ?case by simp
next
  case (Cons c s)
  show ?case
  proof (cases "is_hex_digit c")
    case True
    with Cons show ?thesis by (simp add: toLowerCase_Cons)
  next
    case False
    then show ?thesis by (simp add: toLowerCase_Cons lower_unit_nonhex)
  qed
qed

lemma list_ex_not: "list_ex (\<lambda>x. \<not> P x) xs \<longleftrightarrow> \<not> list_all P xs"
  by (induction xs) simp_all

lemma parseHexInput_fails:
  "isl (parseHexInput v) \<longleftrightarrow>
   odd (length (remove_whitespace v)) \<or>
   list_ex (\<lambda>c. \<not> is_hex_digit c) (remove_whitespace v)"
proof (cases "list_all is_hex_digit (remove_whitespace v)")
  case True
  then have "length (toLowerCase (remove_whitespace v)) = length (remove_whitespace v)"
    and "\<not> list_ex (\<lambda>c. \<not> is_lower_hex c) (toLowerCase (remove_whitespace v))"
    using toLowerCase_hex [OF True] by (simp_all add: list_ex_not)
  with True show ?thesis
    by (auto simp: parseHexInput_def Let_def list_ex_not odd_iff_mod_2_eq_one
        toLowerCase_empty)
next
  case False
  then have ex: "list_ex (\<lambda>c. \<not> is_hex_digit c) (remove_whitespace v)"
    by (simp add: list_ex_not)
  then have "list_ex (\<lambda>c. \<not> is_lower_hex c) (toLowerCase (remove_whitespace v))"
    by (rule toLowerCase_nonhex)
  moreover from this have "toLowerCase (remove_whitespace v) \<noteq> []"
    by auto
  ultimately show ?thesis using ex
    by (simp add: parseHexInput_def Let_def)
qed

lemma parseHexInput_error:
  "parseHexInput v = Inl e \<Longrightarrow>
   e = Error ''Hex input must contain an even number of digits.'' \<or>
   e = Error ''Hex input can only contain 0-9 and a-f.''"
  by (auto simp: parseHexInput_def Let_def split: if_splits)

lemma digits_count:
  "odd (length s) \<or> list_ex (\<lambda>c. \<not> is_hex_digit c) s \<longleftrightarrow>
   odd (length (filter is_hex_digit s)) \<or> list_ex (\<lambda>c. \<not> is_hex_digit c) s"
proof (cases "list_all is_hex_digit s")
  case True
  then have "filter is_hex_digit s = s"
    by (simp add: list_all_iff)
  then show ?thesis by simp
next
  case False
  then show ?thesis by (simp add: list_ex_not)
qed

lemma js_a: "js ''a'' = [0x61]"
  by (simp add: js_def)

lemma js_zz: "js ''zz'' = [0x7a, 0x7a]"
  by (simp add: js_def)

lemma js_hex_abc: "js ''61 62 63'' = [0x36, 0x31, 0x20, 0x36, 0x32, 0x20, 0x36, 0x33]"
  by (simp add: js_def)

lemma clean_a: "remove_whitespace [0x61] = [0x61]"
  by (simp add: remove_whitespace_def is_space_def)

lemma clean_zz: "remove_whitespace [0x7a, 0x7a] = [0x7a, 0x7a]"
  by (simp add: remove_whitespace_def is_space_def)

lemma parse_hex_abc:
  "parseHexInput [0x36, 0x31, 0x20, 0x36, 0x32, 0x20, 0x36, 0x33] = Inr [0x61, 0x62, 0x63]"
  by (simp add: parseHexInput_def Let_def remove_whitespace_def is_space_def toLowerCase_def
      lower_unit_def is_lower_hex_def parseInt16_def digit_value_def)

lemma parse_hex_space:
  "list_all is_space v \<Longrightarrow> parseHexInput v = Inr []"
proof -
  assume "list_all is_space v"
  then have "remove_whitespace v = []"
    by (simp add: remove_whitespace_def list_all_iff)
  then show ?thesis
    by (simp add: parseHexInput_def Let_def toLowerCase_Nil)
qed

section \<open>The round engine\<close>

lemma leftRotate_rotl:
  assumes "s < 32"
  shows "leftRotate v s = word_rotl s v"
proof (cases "s = 0")
  case True
  have "word_rotl 0 v = v"
    by (rule bit_word_eqI) (simp add: bit_word_rotl_iff)
  with True show ?thesis by (simp add: leftRotate_def)
next
  case False
  have e1: "s mod 32 = s"
    using assms by simp
  have "(32 - int s) mod 32 = 32 - int s"
    by (rule mod_pos_pos_trivial) (use assms False in simp_all)
  moreover have "nat (32 - int s) = 32 - s"
    by arith
  ultimately have e2: "nat ((32 - int s) mod 32) = 32 - s"
    by (simp only:)
  have m: "leftRotate v s = push_bit s v OR drop_bit (32 - s) v"
    unfolding leftRotate_def e1 e2 by (rule refl)
  show ?thesis
  proof (rule bit_word_eqI)
    fix n
    assume "n < LENGTH(32)"
    then have n: "n < 32" by simp
    have R: "bit (word_rotl s v) n = bit v ((n + (32 - s)) mod 32)"
      using n by (simp add: bit_word_rotl_iff e1)
    show "bit (leftRotate v s) n = bit (word_rotl s v) n"
    proof (cases "s \<le> n")
      case True
      have "\<not> bit v (32 - s + n)"
        using True by (auto dest: bit_imp_le_length)
      with True have L: "bit (leftRotate v s) n = bit v (n - s)"
        using n by (simp add: m bit_or_iff bit_push_bit_iff bit_drop_bit_eq)
      have "n + (32 - s) = 32 + (n - s)"
        using True assms by arith
      then have "(n + (32 - s)) mod 32 = (n - s) mod 32"
        by (simp only: mod_add_self1)
      also have "\<dots> = n - s"
        using n by simp
      finally show ?thesis by (simp only: L R)
    next
      case False
      then have L: "bit (leftRotate v s) n = bit v (32 - s + n)"
        by (simp add: m bit_or_iff bit_push_bit_iff bit_drop_bit_eq)
      have "n + (32 - s) < 32"
        using False assms by arith
      then have "(n + (32 - s)) mod 32 = 32 - s + n"
        by (simp only: mod_less add.commute)
      then show ?thesis by (simp only: L R)
    qed
  qed
qed

lemma shift_amounts_less: "i < 64 \<Longrightarrow> SHIFT_AMOUNTS ! i < 32"
proof -
  assume "i < 64"
  moreover have "list_all (\<lambda>s. s < 32) SHIFT_AMOUNTS"
    by (simp add: SHIFT_AMOUNTS_def)
  moreover have "length SHIFT_AMOUNTS = 64"
    by (simp add: SHIFT_AMOUNTS_def)
  ultimately show ?thesis
    by (simp add: list_all_length)
qed

lemma round_body_eq:
  "round_body chunk hb i (a, b, c, d) =
   ((d, b + leftRotate (spec_sum (chunk_words chunk) i (a, b, c, d)) (SHIFT_AMOUNTS ! i), b, c),
    Round \<lparr>rd_chunkIndex = chunk_index chunk,
           rd_roundIndex = i,
           rd_stepWithinChunk = i + 1,
           rd_functionName = spec_family i,
           rd_functionFormula = ROUND_FORMULAS (spec_family i),
           rd_indexFormula = INDEX_FORMULAS (spec_family i),
           rd_g = spec_g i,
           rd_shift = SHIFT_AMOUNTS ! i,
           rd_constant = TABLE_K ! i,
           rd_messageWord = chunk_words chunk ! spec_g i,
           rd_functionResult = spec_f i b c d,
           rd_sum = spec_sum (chunk_words chunk) i (a, b, c, d),
           rd_rotated = leftRotate (spec_sum (chunk_words chunk) i (a, b, c, d)) (SHIFT_AMOUNTS ! i),
           rd_registersBefore = [a, b, c, d],
           rd_registersAfter =
             [d, b + leftRotate (spec_sum (chunk_words chunk) i (a, b, c, d)) (SHIFT_AMOUNTS ! i),
              b, c],
           rd_digestPreview = digestFromState
             [hb ! 0 + d,
              hb ! 1 + (b + leftRotate (spec_sum (chunk_words chunk) i (a, b, c, d))
                             (SHIFT_AMOUNTS ! i)),
              hb ! 2 + b, hb ! 3 + c]\<rparr>)"
  by (simp add: round_body_def Let_def spec_family_def spec_g_def spec_f_def spec_sum_def)

lemma fst_round_body_spec:
  "i < 64 \<Longrightarrow> fst (round_body chunk hb i regs) = spec_round (chunk_words chunk) i regs"
  by (cases regs)
     (simp add: round_body_eq spec_round_def spec_rotated_def leftRotate_rotl shift_amounts_less)

lemma regs_at_spec:
  "i \<le> 64 \<Longrightarrow> regs_at chunk hb regs0 i = spec_rounds (chunk_words chunk) i regs0"
  by (induction i) (simp_all add: fst_round_body_spec)

lemma compress_spec:
  "compress chunk hash = spec_fold hash (spec_rounds (chunk_words chunk) 64 (hash_regs hash))"
  by (simp add: compress_def spec_fold_def regs_at_spec)

lemma unat_sum4:
  "unat ((a :: u32) + f + k + m) = (unat a + unat f + unat k + unat m) mod 2 ^ 32"
proof -
  have "unat (a + f + k + m) = (unat (a + f + k) + unat m) mod 2 ^ 32"
    by (simp add: unat_word_ariths)
  also have "\<dots> = ((unat (a + f) + unat k) mod 2 ^ 32 + unat m) mod 2 ^ 32"
    by (simp add: unat_word_ariths)
  also have "\<dots> = (((unat a + unat f) mod 2 ^ 32 + unat k) mod 2 ^ 32 + unat m) mod 2 ^ 32"
    by (simp add: unat_word_ariths)
  also have "\<dots> = (unat a + unat f + unat k + unat m) mod 2 ^ 32"
    by (simp add: mod_add_left_eq)
  finally show ?thesis .
qed

section \<open>Where the events of a trace are\<close>

lemma chunk_events_nth:
  "chunk_events chunk hash ! 0 = chunk_start_at chunk hash"
  "i < 64 \<Longrightarrow> chunk_events chunk hash ! Suc i = round_event_at chunk hash i"
  "chunk_events chunk hash ! 65 = chunk_end_at chunk hash"
proof -
  show "chunk_events chunk hash ! 0 = chunk_start_at chunk hash"
    by (simp add: chunk_events_def)
  show "chunk_events chunk hash ! Suc i = round_event_at chunk hash i" if "i < 64"
    using that by (simp add: chunk_events_def nth_append)
  have "(map (round_event_at chunk hash) [0..<64] @ [chunk_end_at chunk hash]) ! 64 =
        chunk_end_at chunk hash"
    by (simp add: nth_append)
  then show "chunk_events chunk hash ! 65 = chunk_end_at chunk hash"
    by (simp add: chunk_events_def numeral_eq_Suc)
qed

lemma trace_events_nth:
  assumes "k < length (chunkBytes (padBytes bs))" and "j < 66"
  shows "tr_events (trace_of_bytes t bs) ! (1 + 66 * k + j) =
         chunk_events (chunkBytes (padBytes bs) ! k) (hash_before (chunkBytes (padBytes bs)) k) ! j"
proof -
  let ?cs = "chunkBytes (padBytes bs)"
  have "66 * k + j < length (loop_events ?cs INITIAL_HASH)"
    using assms by (simp add: length_loop_events)
  then have "tr_events (trace_of_bytes t bs) ! (1 + 66 * k + j) =
        loop_events ?cs INITIAL_HASH ! (66 * k + j)"
    by (simp add: trace_events nth_append)
  also have "\<dots> = chunk_events (?cs ! k) (hash_before ?cs k) ! j"
    unfolding hash_before_def by (rule loop_events_nth [OF assms])
  finally show ?thesis .
qed

lemma length_trace_events:
  "length (tr_events (trace_of_bytes t bs)) = 1 + length (chunkBytes (padBytes bs)) * 66 + 1"
  by (simp add: trace_events length_loop_events)

lemma hash_before_0: "hash_before chunks 0 = INITIAL_HASH"
  by (simp add: hash_before_def)

lemma hash_before_Suc:
  "k < length chunks \<Longrightarrow> hash_before chunks (Suc k) = compress (chunks ! k) (hash_before chunks k)"
  by (simp add: hash_before_def take_Suc_conv_app_nth)

lemma round_event_at_eq:
  assumes "i < 64" and "spec_rounds (chunk_words chunk) i (hash_regs hb) = (a, b, c, d)"
  shows "round_event_at chunk hb i = snd (round_body chunk hb i (a, b, c, d))"
  using assms by (simp add: round_event_at_def regs_at_spec)

lemma round_event_at_Round:
  assumes "i < 64" and "spec_rounds (chunk_words chunk) i (hash_regs hb) = (a, b, c, d)"
  shows "round_event_at chunk hb i =
    Round \<lparr>rd_chunkIndex = chunk_index chunk,
           rd_roundIndex = i,
           rd_stepWithinChunk = i + 1,
           rd_functionName = spec_family i,
           rd_functionFormula = ROUND_FORMULAS (spec_family i),
           rd_indexFormula = INDEX_FORMULAS (spec_family i),
           rd_g = spec_g i,
           rd_shift = SHIFT_AMOUNTS ! i,
           rd_constant = TABLE_K ! i,
           rd_messageWord = chunk_words chunk ! spec_g i,
           rd_functionResult = spec_f i b c d,
           rd_sum = spec_sum (chunk_words chunk) i (a, b, c, d),
           rd_rotated = spec_rotated (chunk_words chunk) i (a, b, c, d),
           rd_registersBefore = [a, b, c, d],
           rd_registersAfter = [d, b + spec_rotated (chunk_words chunk) i (a, b, c, d), b, c],
           rd_digestPreview = digestFromState
             [hb ! 0 + d, hb ! 1 + (b + spec_rotated (chunk_words chunk) i (a, b, c, d)),
              hb ! 2 + b, hb ! 3 + c]\<rparr>"
  using assms
  by (simp add: round_event_at_eq [OF assms] round_body_eq spec_rotated_def leftRotate_rotl
      shift_amounts_less)

lemma chunk_end_at_eq:
  assumes "spec_rounds (chunk_words chunk) 64 (hash_regs hash) = (a, b, c, d)"
  shows "chunk_end_at chunk hash =
    ChunkEnd \<lparr>ce_chunkIndex = chunk_index chunk,
              ce_hashBefore = hash,
              ce_registersBeforeAdd = [a, b, c, d],
              ce_hashAfter = [hash ! 0 + a, hash ! 1 + b, hash ! 2 + c, hash ! 3 + d],
              ce_digestAfterChunk =
                digestFromState [hash ! 0 + a, hash ! 1 + b, hash ! 2 + c, hash ! 3 + d],
              ce_digestPreview =
                digestFromState [hash ! 0 + a, hash ! 1 + b, hash ! 2 + c, hash ! 3 + d]\<rparr>"
  using assms by (simp add: chunk_end_at_def compress_def regs_at_spec)

lemma spec_g_less: "spec_g i < 16"
  by (simp add: spec_g_def)

lemma build_Inr:
  "buildMd5Trace v t = Inr tr \<Longrightarrow> \<exists>bs. parseInputBytes v t = Inr bs \<and> tr = trace_of_bytes t bs"
  by (cases "parseInputBytes v t") (auto simp: buildMd5Trace_def)

lemma ev_start:
  "k < length (chunkBytes (padBytes bs)) \<Longrightarrow>
   tr_events (trace_of_bytes t bs) ! (1 + 66 * k) =
   chunk_start_at (chunkBytes (padBytes bs) ! k) (hash_before (chunkBytes (padBytes bs)) k)"
  using trace_events_nth [of k bs 0 t] by (simp add: chunk_events_nth)

lemma ev_round:
  "k < length (chunkBytes (padBytes bs)) \<Longrightarrow> i < 64 \<Longrightarrow>
   tr_events (trace_of_bytes t bs) ! (1 + 66 * k + 1 + i) =
   round_event_at (chunkBytes (padBytes bs) ! k) (hash_before (chunkBytes (padBytes bs)) k) i"
  using trace_events_nth [of k bs "Suc i" t] by (simp add: chunk_events_nth)

lemma ev_end:
  "k < length (chunkBytes (padBytes bs)) \<Longrightarrow>
   tr_events (trace_of_bytes t bs) ! (1 + 66 * k + 65) =
   chunk_end_at (chunkBytes (padBytes bs) ! k) (hash_before (chunkBytes (padBytes bs)) k)"
  using trace_events_nth [of k bs 65 t] by (simp add: chunk_events_nth)

lemma ev_last:
  "last (tr_events (trace_of_bytes t bs)) =
   Done \<lparr>dn_hash = hash_before (chunkBytes (padBytes bs)) (length (chunkBytes (padBytes bs))),
         dn_digest = tr_digest (trace_of_bytes t bs),
         dn_chunkCount = length (chunkBytes (padBytes bs)),
         dn_digestPreview = tr_digest (trace_of_bytes t bs)\<rparr>"
  by (simp add: trace_events)

lemma length_chunks_padded:
  "length (chunkBytes (padBytes bs)) = length (padBytes bs) div 64"
proof -
  have "64 dvd length (padBytes bs)"
    using length_padBytes_mod [of bs] by (simp add: dvd_eq_mod_eq_0)
  then obtain q where "length (padBytes bs) = 64 * q" ..
  then show ?thesis by (simp add: length_chunkBytes)
qed

lemma chunks_nonempty: "0 < length (chunkBytes (padBytes bs))"
  by (simp add: length_chunkBytes length_padBytes)

lemma map2_add4:
  "length H = 4 \<Longrightarrow>
   map2 (+) H [w, x, y, z] = [H ! 0 + w, H ! 1 + x, H ! 2 + y, H ! 3 + (z :: u32)]"
proof -
  assume "length H = 4"
  then have "H = [H ! 0, H ! 1, H ! 2, H ! 3]" by (rule list4)
  then obtain h0 h1 h2 h3 where "H = [h0, h1, h2, h3]" by blast
  then show ?thesis by simp
qed

lemma unat_map2_add:
  "map unat (map2 (+) xs (ys :: u32 list)) =
   map2 (\<lambda>h x. (unat h + unat x) mod 2 ^ 32) xs ys"
proof (induction xs arbitrary: ys)
  case Nil
  show ?case by simp
next
  case (Cons x xs)
  then show ?case by (cases ys) (simp_all add: unat_word_ariths)
qed

lemma spec_rounds_64:
  "spec_rounds M 64 regs = spec_round M 63 (spec_rounds M 63 regs)"
proof -
  have "spec_rounds M (Suc 63) regs = spec_round M 63 (spec_rounds M 63 regs)"
    by (rule spec_rounds.simps)
  then show ?thesis by simp
qed

lemma chunk_start_at_eq:
  "length hash = 4 \<Longrightarrow>
   chunk_start_at chunk hash =
   ChunkStart \<lparr>cs_chunkIndex = chunk_index chunk,
                cs_chunkWords = chunk_words chunk,
                cs_hashBefore = hash,
                cs_registersBefore = hash,
                cs_digestPreview = digestFromState hash\<rparr>"
  using list4 [of hash] by (simp add: chunk_start_at_def)

section \<open>The claims\<close>

text \<open>
  C1. In text mode the digest field of the trace built for the empty string is
  \<open>d41d8cd98f00b204e9800998ecf8427e\<close>, and for the string \<open>abc\<close> it is
  \<open>900150983cd24fb0d6963f7d28e17f72\<close>.
\<close>

theorem known_digests:
  "(\<exists>tr. buildMd5Trace (js []) Text = Inr tr \<and>
         tr_digest tr = ''d41d8cd98f00b204e9800998ecf8427e'') \<and>
   (\<exists>tr. buildMd5Trace (js ''abc'') Text = Inr tr \<and>
         tr_digest tr = ''900150983cd24fb0d6963f7d28e17f72'')"
  by (simp add: buildMd5Trace_def parseInputBytes_def js_empty js_abc encode_empty encode_abc
      trace_digest_empty trace_digest_abc)

text \<open>
  C2. The digest of a state of four words is the spec's rendering: every word as its four
  bytes from the least significant one, every byte as two lower-case hexadecimal digits, in
  the order H0 H1 H2 H3; it has 32 characters, all of them lower-case hexadecimal digits.
  The digest of the trace of any byte sequence is such a string.
\<close>

theorem digest_format:
  "digestFromState [h0, h1, h2, h3] = spec_digest [h0, h1, h2, h3] \<and>
   length (digestFromState [h0, h1, h2, h3]) = 32 \<and>
   list_all is_lower_hex_char (digestFromState [h0, h1, h2, h3]) \<and>
   (\<exists>w0 w1 w2 w3. tr_digest (trace_of_bytes t bs) = spec_digest [w0, w1, w2, w3]) \<and>
   length (tr_digest (trace_of_bytes t bs)) = 32 \<and>
   list_all is_lower_hex_char (tr_digest (trace_of_bytes t bs))"
proof -
  let ?h = "hash_before (chunkBytes (padBytes bs)) (length (chunkBytes (padBytes bs)))"
  have "?h = [?h ! 0, ?h ! 1, ?h ! 2, ?h ! 3]"
    by (rule list4) (rule length_hash_before)
  then have "tr_digest (trace_of_bytes t bs) = spec_digest [?h ! 0, ?h ! 1, ?h ! 2, ?h ! 3]"
    by (simp only: trace_digest digest_spec)
  then have "\<exists>w0 w1 w2 w3. tr_digest (trace_of_bytes t bs) = spec_digest [w0, w1, w2, w3]"
    by blast
  moreover have "length (tr_digest (trace_of_bytes t bs)) = 32"
    by (simp add: trace_digest digest_length length_hash_before)
  ultimately show ?thesis
    by (simp add: digest_spec [symmetric] digest_length digest_chars trace_digest)
qed

theorem digest_format_witness:
  "spec_digest [0x67452301, 0xefcdab89, 0x98badcfe, 0x10325476] =
     ''0123456789abcdeffedcba9876543210'' \<and>
   length (tr_digest (trace_of_bytes Text [])) = 32"
  using digest_format [of "0x67452301" "0xefcdab89" "0x98badcfe" "0x10325476" Text "[]"]
  by (simp add: digestFromState_def wordToHexLittleEndian_def padStart_def toString16.simps
      hex_digit_def)

text \<open>
  C3. Padding appends one byte 0x80, then bytes 0x00 until the length is 56 modulo 64 (the
  least number of them that gets there), then the bit length, 8 times the byte count,
  modulo \<open>2^64\<close>, as 8 bytes from the least significant one.  The padded length is a
  multiple of 64, between 9 and 72 bytes are added, and \<open>padBytes\<close> is a total function.
\<close>

theorem padBytes_spec:
  "\<exists>z. padBytes bs = bs @ [0x80] @ replicate z 0 @ spec_le64 ((8 * length bs) mod 2 ^ 64) \<and>
       (length bs + 1 + z) mod 64 = 56 \<and>
       (\<forall>z' < z. (length bs + 1 + z') mod 64 \<noteq> 56) \<and>
       length (spec_le64 ((8 * length bs) mod 2 ^ 64)) = 8 \<and>
       length (padBytes bs) mod 64 = 0 \<and>
       length bs + 9 \<le> length (padBytes bs) \<and>
       length (padBytes bs) \<le> length bs + 72"
proof -
  let ?z = "zeros_left (length bs + 1)"
  have least: "(length bs + 1 + z') mod 64 \<noteq> 56" if "z' < ?z" for z'
  proof -
    define m where "m = (length bs + 1) mod 64"
    have b: "m < 64" by (simp add: m_def)
    have z: "z' < (if m \<le> 56 then 56 - m else 120 - m)"
      using that unfolding zeros_left_def m_def .
    have "(length bs + 1 + z') mod 64 = (m + z') mod 64"
      unfolding m_def by (simp add: mod_add_left_eq)
    also have "\<dots> = (if m + z' < 64 then m + z' else m + z' - 64)"
    proof (cases "m + z' < 64")
      case True
      then show ?thesis by simp
    next
      case False
      then have "(m + z') mod 64 = (m + z' - 64) mod 64"
        by (simp add: le_mod_geq)
      moreover have "m + z' - 64 < 64"
        using b z by (cases "m \<le> 56") simp_all
      ultimately show ?thesis using False by simp
    qed
    also have "\<dots> \<noteq> 56"
      using b z by (cases "m \<le> 56") (simp_all split: if_splits, arith+)
    finally show ?thesis .
  qed
  have lt: "?z < 64" by (rule zeros_left_less)
  have e1: "padBytes bs =
      bs @ [0x80] @ replicate ?z 0 @ spec_le64 ((8 * length bs) mod 2 ^ 64)"
    by (rule padBytes_eq)
  have e2: "(length bs + 1 + ?z) mod 64 = 56"
    by (rule zeros_left_mod)
  have e3: "\<forall>z' < ?z. (length bs + 1 + z') mod 64 \<noteq> 56"
    using least by blast
  have e4: "length (spec_le64 ((8 * length bs) mod 2 ^ 64)) = 8"
    by (rule length_spec_le64)
  have e5: "length (padBytes bs) mod 64 = 0"
    by (rule length_padBytes_mod)
  have e6: "length bs + 9 \<le> length (padBytes bs)"
    by (simp add: length_padBytes)
  have e7: "length (padBytes bs) \<le> length bs + 72"
    using lt by (simp add: length_padBytes)
  show ?thesis
    by (rule exI [of _ ?z]) (intro conjI e1 e2 e3 e4 e5 e6 e7)
qed

theorem padBytes_spec_witness:
  "padBytes [0x61, 0x62, 0x63] =
     [0x61, 0x62, 0x63, 0x80] @ replicate 52 0 @ [24, 0, 0, 0, 0, 0, 0, 0] \<and>
   (\<exists>z. (3 + 1 + z) mod 64 = (56::nat) \<and> (\<forall>z' < z. (3 + 1 + z') mod 64 \<noteq> (56::nat))) \<and>
   length (padBytes [0x61, 0x62, 0x63]) = 64"
proof -
  from padBytes_spec [of "[0x61, 0x62, 0x63]"]
  obtain z where z: "(length [0x61, 0x62, 0x63 :: u8] + 1 + z) mod 64 = 56"
    "\<forall>z' < z. (length [0x61, 0x62, 0x63 :: u8] + 1 + z') mod 64 \<noteq> 56"
    by blast
  then have "\<exists>z. (3 + 1 + z) mod 64 = (56::nat) \<and> (\<forall>z' < z. (3 + 1 + z') mod 64 \<noteq> (56::nat))"
    by auto
  then show ?thesis
    by (simp add: padBytes_abc)
qed

text \<open>
  C7. In hex mode \<open>buildMd5Trace\<close> fails exactly when the input, its whitespace removed, has
  an odd number of characters or holds a character outside \<open>[0-9a-fA-F]\<close> (counting only
  the hexadecimal digits gives the same condition).  The error is one of the two messages
  of \<open>parseHexInput\<close>; the inputs \<open>a\<close> and \<open>zz\<close> fail; a result is either an error or a
  trace, never both; text mode never fails.
\<close>

theorem hex_input_errors:
  "(isl (buildMd5Trace v Hex) \<longleftrightarrow>
      odd (length (remove_whitespace v)) \<or>
      list_ex (\<lambda>c. \<not> is_hex_digit c) (remove_whitespace v)) \<and>
   (isl (buildMd5Trace v Hex) \<longleftrightarrow>
      odd (length (filter is_hex_digit (remove_whitespace v))) \<or>
      list_ex (\<lambda>c. \<not> is_hex_digit c) (remove_whitespace v)) \<and>
   (\<forall>e. buildMd5Trace v Hex = Inl e \<longrightarrow>
      e = Error ''Hex input must contain an even number of digits.'' \<or>
      e = Error ''Hex input can only contain 0-9 and a-f.'') \<and>
   isl (buildMd5Trace (js ''a'') Hex) \<and>
   isl (buildMd5Trace (js ''zz'') Hex) \<and>
   (\<exists>tr. buildMd5Trace v Text = Inr tr)"
proof -
  have fails: "isl (buildMd5Trace w Hex) \<longleftrightarrow>
      odd (length (remove_whitespace w)) \<or>
      list_ex (\<lambda>c. \<not> is_hex_digit c) (remove_whitespace w)" for w
    using parseHexInput_fails [of w]
    by (cases "parseHexInput w") (simp_all add: buildMd5Trace_def parseInputBytes_def)
  have msg: "e = Error ''Hex input must contain an even number of digits.'' \<or>
      e = Error ''Hex input can only contain 0-9 and a-f.''"
    if "buildMd5Trace v Hex = Inl e" for e
  proof -
    from that have "parseHexInput v = Inl e"
      by (cases "parseHexInput v") (simp_all add: buildMd5Trace_def parseInputBytes_def)
    then show ?thesis by (rule parseHexInput_error)
  qed
  have a: "isl (buildMd5Trace (js ''a'') Hex)"
    by (simp add: fails js_a clean_a)
  have zz: "isl (buildMd5Trace (js ''zz'') Hex)"
    by (simp add: fails js_zz clean_zz is_hex_digit_def)
  have tm: "\<exists>tr. buildMd5Trace v Text = Inr tr"
    by (simp add: buildMd5Trace_def parseInputBytes_def)
  from fails [of v] digits_count [of "remove_whitespace v"] msg a zz tm show ?thesis
    by blast
qed

theorem hex_input_errors_witness:
  "odd (length (remove_whitespace (js ''a''))) \<and>
   buildMd5Trace (js ''a'') Hex = Inl (Error ''Hex input must contain an even number of digits.'') \<and>
   isl (buildMd5Trace (js ''a'') Hex)"
  using hex_input_errors [of "js ''a''"]
  by (simp add: js_a clean_a buildMd5Trace_def parseInputBytes_def parseHexInput_def
      toLowerCase_def lower_unit_def)

text \<open>
  C8. The hex input \<open>61 62 63\<close> and the text input \<open>abc\<close> give the same input bytes, the
  same padded bytes and the same digest.
\<close>

theorem hex_text_agree:
  "\<exists>th tt. buildMd5Trace (js ''61 62 63'') Hex = Inr th \<and>
           buildMd5Trace (js ''abc'') Text = Inr tt \<and>
           tr_inputBytes th = tr_inputBytes tt \<and>
           tr_paddedBytes th = tr_paddedBytes tt \<and>
           tr_digest th = tr_digest tt"
  by (simp add: buildMd5Trace_def parseInputBytes_def js_hex_abc parse_hex_abc js_abc encode_abc
      trace_fields trace_digest)

text \<open>
  C10, as stated: a hex input that is empty or all whitespace gives the very trace of the
  empty text input.  It does not: the trace records the input type, \<open>hex\<close> against \<open>text\<close>.
\<close>

theorem empty_hex_trace_counterexample:
  "buildMd5Trace [] Hex \<noteq> buildMd5Trace [] Text"
proof
  assume "buildMd5Trace [] Hex = buildMd5Trace [] Text"
  then have "trace_of_bytes Hex [] = trace_of_bytes Text []"
    by (simp add: buildMd5Trace_def parseInputBytes_def parseHexInput_def Let_def
        remove_whitespace_def toLowerCase_Nil encode_empty)
  then have "tr_inputType (trace_of_bytes Hex []) = tr_inputType (trace_of_bytes Text [])"
    by simp
  then show False by (simp add: trace_fields)
qed

text \<open>
  C10, amended: a hex input that is empty or all whitespace is accepted as the empty byte
  sequence; its trace is the trace of the empty text input with the input type \<open>hex\<close>
  recorded in place of \<open>text\<close> (in the trace and in its Preprocess event), and its digest is
  \<open>d41d8cd98f00b204e9800998ecf8427e\<close>.
\<close>

theorem blank_hex_trace:
  assumes "list_all is_space v"
  shows "\<exists>th tt. buildMd5Trace v Hex = Inr th \<and>
           buildMd5Trace [] Text = Inr tt \<and>
           tr_inputBytes th = [] \<and>
           th = set_input_type Hex tt \<and>
           tr_digest th = ''d41d8cd98f00b204e9800998ecf8427e''"
proof -
  show ?thesis
  proof (intro exI conjI)
    show "buildMd5Trace v Hex = Inr (trace_of_bytes Hex [])"
      by (simp add: buildMd5Trace_def parseInputBytes_def parse_hex_space [OF assms])
    show "buildMd5Trace [] Text = Inr (trace_of_bytes Text [])"
      by (simp add: buildMd5Trace_def parseInputBytes_def encode_empty)
    show "tr_inputBytes (trace_of_bytes Hex []) = []"
      by (simp add: trace_fields)
    show "trace_of_bytes Hex [] = set_input_type Hex (trace_of_bytes Text [])"
      by (rule trace_retag)
    show "tr_digest (trace_of_bytes Hex []) = ''d41d8cd98f00b204e9800998ecf8427e''"
      by (rule trace_digest_empty)
  qed
qed

theorem blank_hex_trace_witness:
  "list_all is_space [0x20, 0x09] \<and>
   (\<exists>th. buildMd5Trace [0x20, 0x09] Hex = Inr th \<and>
         tr_digest th = ''d41d8cd98f00b204e9800998ecf8427e'')"
proof -
  have w: "list_all is_space [0x20, 0x09]"
    by (simp add: is_space_def)
  from blank_hex_trace [OF w] show ?thesis
    using w by blast
qed

text \<open>
  C5. The trace of an input that parses has \<open>1 + chunkCount * 66 + 1\<close> events: a Preprocess
  event first; for chunk \<open>k\<close>, from position \<open>1 + 66 * k\<close> on, one ChunkStart, the 64 Round
  events in round order, one ChunkEnd; a Done event last, whose digest is the digest of the
  trace.  The chunk count is the number of 64-byte blocks of the padded message.
\<close>

theorem event_layout:
  assumes "buildMd5Trace v t = Inr tr"
  shows "length (tr_events tr) = 1 + length (tr_chunks tr) * 66 + 1 \<and>
    length (tr_chunks tr) = length (tr_paddedBytes tr) div 64 \<and>
    (\<exists>p. tr_events tr ! 0 = Preprocess p \<and> pp_chunkCount p = length (tr_chunks tr)) \<and>
    (\<forall>k < length (tr_chunks tr).
       (\<exists>cs. tr_events tr ! (1 + 66 * k) = ChunkStart cs \<and> cs_chunkIndex cs = k) \<and>
       (\<forall>i < 64. \<exists>r. tr_events tr ! (1 + 66 * k + 1 + i) = Round r \<and>
                     rd_chunkIndex r = k \<and> rd_roundIndex r = i) \<and>
       (\<exists>ce. tr_events tr ! (1 + 66 * k + 65) = ChunkEnd ce \<and> ce_chunkIndex ce = k)) \<and>
    (\<exists>d. last (tr_events tr) = Done d \<and> dn_digest d = tr_digest tr \<and>
         dn_chunkCount d = length (tr_chunks tr))"
proof -
  from assms obtain bs where tr: "tr = trace_of_bytes t bs"
    using build_Inr by blast
  let ?cs = "chunkBytes (padBytes bs)"
  have n: "length (tr_events tr) = 1 + length (tr_chunks tr) * 66 + 1"
    by (simp only: tr length_trace_events trace_chunks)
  have q: "length (tr_chunks tr) = length (tr_paddedBytes tr) div 64"
    by (simp only: tr trace_chunks trace_fields length_chunks_padded)
  have p: "\<exists>p. tr_events tr ! 0 = Preprocess p \<and> pp_chunkCount p = length (tr_chunks tr)"
    by (simp add: tr trace_events trace_chunks)
  have c: "(\<exists>cs. tr_events tr ! (1 + 66 * k) = ChunkStart cs \<and> cs_chunkIndex cs = k) \<and>
       (\<forall>i < 64. \<exists>r. tr_events tr ! (1 + 66 * k + 1 + i) = Round r \<and>
                     rd_chunkIndex r = k \<and> rd_roundIndex r = i) \<and>
       (\<exists>ce. tr_events tr ! (1 + 66 * k + 65) = ChunkEnd ce \<and> ce_chunkIndex ce = k)"
    if "k < length (tr_chunks tr)" for k
  proof -
    from that have k: "k < length ?cs"
      by (simp add: tr trace_chunks)
    have ix: "chunk_index (?cs ! k) = k"
      by (rule chunk_index_nth [OF k])
    have s: "\<exists>cs. tr_events tr ! (1 + 66 * k) = ChunkStart cs \<and> cs_chunkIndex cs = k"
      unfolding tr ev_start [OF k] chunk_start_at_def by (simp add: ix)
    have r: "\<exists>r. tr_events tr ! (1 + 66 * k + 1 + i) = Round r \<and>
                 rd_chunkIndex r = k \<and> rd_roundIndex r = i" if i: "i < 64" for i
    proof -
      obtain a b c d where
        "spec_rounds (chunk_words (?cs ! k)) i (hash_regs (hash_before ?cs k)) = (a, b, c, d)"
        by (cases "spec_rounds (chunk_words (?cs ! k)) i (hash_regs (hash_before ?cs k))") auto
      note ev = round_event_at_Round [OF i this]
      show ?thesis
        unfolding tr ev_round [OF k i] ev by (simp add: ix)
    qed
    obtain a b c d where
      "spec_rounds (chunk_words (?cs ! k)) 64 (hash_regs (hash_before ?cs k)) = (a, b, c, d)"
      by (cases "spec_rounds (chunk_words (?cs ! k)) 64 (hash_regs (hash_before ?cs k))") auto
    note ev = chunk_end_at_eq [OF this]
    have e: "\<exists>ce. tr_events tr ! (1 + 66 * k + 65) = ChunkEnd ce \<and> ce_chunkIndex ce = k"
      unfolding tr ev_end [OF k] ev by (simp add: ix)
    from s r e show ?thesis by blast
  qed
  have d: "\<exists>d. last (tr_events tr) = Done d \<and> dn_digest d = tr_digest tr \<and>
         dn_chunkCount d = length (tr_chunks tr)"
    by (simp add: tr ev_last trace_chunks)
  from n q p c d show ?thesis by blast
qed

theorem event_layout_witness:
  "buildMd5Trace (js ''abc'') Text = Inr (trace_of_bytes Text [0x61, 0x62, 0x63]) \<and>
   length (tr_chunks (trace_of_bytes Text [0x61, 0x62, 0x63])) = 1 \<and>
   length (tr_events (trace_of_bytes Text [0x61, 0x62, 0x63])) = 68 \<and>
   (\<exists>r. tr_events (trace_of_bytes Text [0x61, 0x62, 0x63]) ! 65 = Round r \<and>
        rd_roundIndex r = 63)"
proof -
  have b: "buildMd5Trace (js ''abc'') Text = Inr (trace_of_bytes Text [0x61, 0x62, 0x63])"
    by (simp add: buildMd5Trace_def parseInputBytes_def js_abc encode_abc)
  have n: "length (tr_chunks (trace_of_bytes Text [0x61, 0x62, 0x63])) = 1"
    by (simp add: trace_chunks chunks_abc)
  have k: "0 < length (tr_chunks (trace_of_bytes Text [0x61, 0x62, 0x63]))"
    by (simp add: n)
  note len = event_layout [OF b, THEN conjunct1]
  note chunk0 = event_layout [OF b, THEN conjunct2, THEN conjunct2, THEN conjunct2,
      THEN conjunct1, rule_format, OF k]
  note round63 = chunk0 [THEN conjunct2, THEN conjunct1, rule_format, of 63]
  have l: "length (tr_events (trace_of_bytes Text [0x61, 0x62, 0x63])) = 68"
    using len by (simp add: n)
  have r: "\<exists>r. tr_events (trace_of_bytes Text [0x61, 0x62, 0x63]) ! 65 = Round r \<and>
        rd_roundIndex r = 63"
    using round63 by auto
  from b n l r show ?thesis by blast
qed

text \<open>
  C6. In every Round event of a trace, \<open>registersAfter[0]\<close> is \<open>registersBefore[3]\<close> and
  \<open>registersAfter[2]\<close> is \<open>registersBefore[1]\<close>.
\<close>

theorem register_rotation:
  assumes "buildMd5Trace v t = Inr tr" and "Round r \<in> set (tr_events tr)"
  shows "rd_registersAfter r ! 0 = rd_registersBefore r ! 3 \<and>
         rd_registersAfter r ! 2 = rd_registersBefore r ! 1"
proof -
  from assms(1) obtain bs where tr: "tr = trace_of_bytes t bs"
    using build_Inr by blast
  have body: "\<exists>chunk hb i regs. Round r = snd (round_body chunk hb i regs)"
    if "Round r \<in> set (loop_events chunks hash)" for chunks hash
    using that
  proof (induction chunks arbitrary: hash)
    case Nil
    then show ?case by simp
  next
    case (Cons chunk rest)
    from chunk_end_ChunkEnd [of chunk hash] have "Round r \<noteq> chunk_end_at chunk hash"
      by auto
    with Cons.prems have
      "Round r \<in> round_event_at chunk hash ` {0..<64} \<or>
       Round r \<in> set (loop_events rest (compress chunk hash))"
      by (auto simp: chunk_events_def chunk_start_at_def)
    then show ?case
    proof
      assume "Round r \<in> round_event_at chunk hash ` {0..<64}"
      then obtain i where "Round r = round_event_at chunk hash i"
        by auto
      then show ?thesis unfolding round_event_at_def by blast
    next
      assume "Round r \<in> set (loop_events rest (compress chunk hash))"
      then show ?thesis by (rule Cons.IH)
    qed
  qed
  from assms(2) have "Round r \<in> set (loop_events (chunkBytes (padBytes bs)) INITIAL_HASH)"
    by (simp add: tr trace_events)
  then obtain chunk hb i regs where "Round r = snd (round_body chunk hb i regs)"
    using body by blast
  then show ?thesis
    by (cases regs) (simp add: round_body_eq)
qed

theorem register_rotation_witness:
  "\<exists>r. buildMd5Trace [] Text = Inr (trace_of_bytes Text []) \<and>
       Round r \<in> set (tr_events (trace_of_bytes Text [])) \<and>
       rd_roundIndex r = 0 \<and>
       rd_registersBefore r = [0x67452301, 0xefcdab89, 0x98badcfe, 0x10325476] \<and>
       rd_registersAfter r ! 0 = 0x10325476 \<and>
       rd_registersAfter r ! 2 = 0xefcdab89"
proof -
  let ?tr = "trace_of_bytes Text []"
  have b: "buildMd5Trace [] Text = Inr ?tr"
    by (simp add: buildMd5Trace_def parseInputBytes_def encode_empty)
  have k: "0 < length (chunkBytes (padBytes []))"
    by (rule chunks_nonempty)
  have s: "spec_rounds (chunk_words (chunkBytes (padBytes []) ! 0)) 0
      (hash_regs (hash_before (chunkBytes (padBytes [])) 0)) =
      (0x67452301, 0xefcdab89, 0x98badcfe, 0x10325476)"
    by (simp add: hash_before_0 hash_regs_def INITIAL_HASH_def)
  have z: "(0::nat) < 64" by simp
  have e0: "tr_events ?tr ! (1 + 66 * 0 + 1 + 0) =
      round_event_at (chunkBytes (padBytes []) ! 0) (hash_before (chunkBytes (padBytes [])) 0) 0"
    by (rule ev_round [OF k z])
  note e1 = round_event_at_Round [OF z s]
  have "\<exists>r. tr_events ?tr ! (1 + 66 * 0 + 1 + 0) = Round r \<and> rd_roundIndex r = 0 \<and>
      rd_registersBefore r = [0x67452301, 0xefcdab89, 0x98badcfe, 0x10325476]"
    unfolding e0 e1 by simp
  then obtain r where e: "tr_events ?tr ! (1 + 66 * 0 + 1 + 0) = Round r"
    and f: "rd_roundIndex r = 0"
      "rd_registersBefore r = [0x67452301, 0xefcdab89, 0x98badcfe, 0x10325476]"
    by blast
  have "1 + 66 * 0 + 1 + 0 < length (tr_events ?tr)"
    using k by (simp add: length_trace_events)
  then have "tr_events ?tr ! (1 + 66 * 0 + 1 + 0) \<in> set (tr_events ?tr)"
    by (rule nth_mem)
  then have m: "Round r \<in> set (tr_events ?tr)"
    by (simp only: e)
  from register_rotation [OF b m] f b m show ?thesis
    by auto
qed

text \<open>
  C9. In chunk \<open>k\<close> of a trace, the preview digest of the Round event of round \<open>i\<close> is the
  digest of the chunk's incoming hash state (the one its ChunkStart event records) plus,
  entry by entry modulo \<open>2^32\<close>, the registers after that round; for round 63 it is the
  digest the chunk's ChunkEnd event records after the fold.  By C5 these are all the Round
  events of the trace.
\<close>

theorem preview_digest:
  assumes "buildMd5Trace v t = Inr tr" and "k < length (tr_chunks tr)" and "i < 64"
  shows "\<exists>cs r r63 ce.
    tr_events tr ! (1 + 66 * k) = ChunkStart cs \<and>
    tr_events tr ! (1 + 66 * k + 1 + i) = Round r \<and>
    tr_events tr ! (1 + 66 * k + 1 + 63) = Round r63 \<and>
    tr_events tr ! (1 + 66 * k + 65) = ChunkEnd ce \<and>
    length (cs_hashBefore cs) = 4 \<and>
    length (rd_registersAfter r) = 4 \<and>
    rd_digestPreview r = digestFromState (map2 (+) (cs_hashBefore cs) (rd_registersAfter r)) \<and>
    map unat (map2 (+) (cs_hashBefore cs) (rd_registersAfter r)) =
      map2 (\<lambda>h x. (unat h + unat x) mod 2 ^ 32) (cs_hashBefore cs) (rd_registersAfter r) \<and>
    ce_hashBefore ce = cs_hashBefore cs \<and>
    ce_digestAfterChunk ce = digestFromState (ce_hashAfter ce) \<and>
    rd_digestPreview r63 = ce_digestAfterChunk ce"
proof -
  from assms(1) obtain bs where tr: "tr = trace_of_bytes t bs"
    using build_Inr by blast
  let ?cs = "chunkBytes (padBytes bs)"
  let ?ch = "?cs ! k"
  let ?H = "hash_before ?cs k"
  let ?M = "chunk_words ?ch"
  from assms(2) have k: "k < length ?cs"
    by (simp add: tr trace_chunks)
  have i63: "(63::nat) < 64" by simp
  have H4: "length ?H = 4" by (rule length_hash_before)
  obtain a b c d where ri: "spec_rounds ?M i (hash_regs ?H) = (a, b, c, d)"
    by (cases "spec_rounds ?M i (hash_regs ?H)") auto
  obtain a3 b3 c3 d3 where r63: "spec_rounds ?M 63 (hash_regs ?H) = (a3, b3, c3, d3)"
    by (cases "spec_rounds ?M 63 (hash_regs ?H)") auto
  have r64: "spec_rounds ?M 64 (hash_regs ?H) =
      (d3, b3 + spec_rotated ?M 63 (a3, b3, c3, d3), b3, c3)"
    by (simp only: spec_rounds_64 r63) (simp add: spec_round_def)
  note S = chunk_start_at_eq [OF H4, of ?ch]
  note R = round_event_at_Round [OF assms(3) ri]
  note R63 = round_event_at_Round [OF i63 r63]
  note E = chunk_end_at_eq [OF r64]
  have "\<exists>cs. tr_events tr ! (1 + 66 * k) = ChunkStart cs \<and> cs_hashBefore cs = ?H"
    unfolding tr ev_start [OF k] S by simp
  then obtain cs where e1: "tr_events tr ! (1 + 66 * k) = ChunkStart cs"
    and cs: "cs_hashBefore cs = ?H"
    by blast
  have "\<exists>r. tr_events tr ! (1 + 66 * k + 1 + i) = Round r \<and>
      rd_registersAfter r = [d, b + spec_rotated ?M i (a, b, c, d), b, c] \<and>
      rd_digestPreview r = digestFromState
        [?H ! 0 + d, ?H ! 1 + (b + spec_rotated ?M i (a, b, c, d)), ?H ! 2 + b, ?H ! 3 + c]"
    unfolding tr ev_round [OF k assms(3)] R by simp
  then obtain r where e2: "tr_events tr ! (1 + 66 * k + 1 + i) = Round r"
    and ra: "rd_registersAfter r = [d, b + spec_rotated ?M i (a, b, c, d), b, c]"
    and rp: "rd_digestPreview r = digestFromState
        [?H ! 0 + d, ?H ! 1 + (b + spec_rotated ?M i (a, b, c, d)), ?H ! 2 + b, ?H ! 3 + c]"
    by blast
  have "\<exists>r. tr_events tr ! (1 + 66 * k + 1 + 63) = Round r \<and>
      rd_digestPreview r = digestFromState
        [?H ! 0 + d3, ?H ! 1 + (b3 + spec_rotated ?M 63 (a3, b3, c3, d3)), ?H ! 2 + b3,
         ?H ! 3 + c3]"
    unfolding tr ev_round [OF k i63] R63 by simp
  then obtain r63 where e3: "tr_events tr ! (1 + 66 * k + 1 + 63) = Round r63"
    and r63p: "rd_digestPreview r63 = digestFromState
        [?H ! 0 + d3, ?H ! 1 + (b3 + spec_rotated ?M 63 (a3, b3, c3, d3)), ?H ! 2 + b3,
         ?H ! 3 + c3]"
    by blast
  have "\<exists>ce. tr_events tr ! (1 + 66 * k + 65) = ChunkEnd ce \<and>
      ce_hashBefore ce = ?H \<and>
      ce_digestAfterChunk ce = digestFromState (ce_hashAfter ce) \<and>
      ce_digestAfterChunk ce = digestFromState
        [?H ! 0 + d3, ?H ! 1 + (b3 + spec_rotated ?M 63 (a3, b3, c3, d3)), ?H ! 2 + b3,
         ?H ! 3 + c3]"
    unfolding tr ev_end [OF k] E by simp
  then obtain ce where e4: "tr_events tr ! (1 + 66 * k + 65) = ChunkEnd ce"
    and ceb: "ce_hashBefore ce = ?H"
    and ced: "ce_digestAfterChunk ce = digestFromState (ce_hashAfter ce)"
    and cep: "ce_digestAfterChunk ce = digestFromState
        [?H ! 0 + d3, ?H ! 1 + (b3 + spec_rotated ?M 63 (a3, b3, c3, d3)), ?H ! 2 + b3,
         ?H ! 3 + c3]"
    by blast
  have f1: "length (cs_hashBefore cs) = 4"
    by (simp only: cs H4)
  have f2: "length (rd_registersAfter r) = 4"
    by (simp add: ra)
  have f3: "rd_digestPreview r =
      digestFromState (map2 (+) (cs_hashBefore cs) (rd_registersAfter r))"
    by (simp only: cs ra rp map2_add4 [OF H4])
  have f4: "map unat (map2 (+) (cs_hashBefore cs) (rd_registersAfter r)) =
      map2 (\<lambda>h x. (unat h + unat x) mod 2 ^ 32) (cs_hashBefore cs) (rd_registersAfter r)"
    by (rule unat_map2_add)
  have f5: "ce_hashBefore ce = cs_hashBefore cs"
    by (simp only: cs ceb)
  have f6: "rd_digestPreview r63 = ce_digestAfterChunk ce"
    by (simp only: r63p cep)
  show ?thesis
    by (rule exI [of _ cs], rule exI [of _ r], rule exI [of _ r63], rule exI [of _ ce])
       (intro conjI e1 e2 e3 e4 f1 f2 f3 f4 f5 ced f6)
qed

theorem preview_digest_witness:
  "buildMd5Trace [] Text = Inr (trace_of_bytes Text []) \<and>
   0 < length (tr_chunks (trace_of_bytes Text [])) \<and>
   (\<exists>r63 ce. tr_events (trace_of_bytes Text []) ! 65 = Round r63 \<and>
      tr_events (trace_of_bytes Text []) ! 66 = ChunkEnd ce \<and>
      rd_digestPreview r63 = ce_digestAfterChunk ce)"
proof -
  let ?tr = "trace_of_bytes Text []"
  have b: "buildMd5Trace [] Text = Inr ?tr"
    by (simp add: buildMd5Trace_def parseInputBytes_def encode_empty)
  have k: "0 < length (tr_chunks ?tr)"
    by (simp only: trace_chunks chunks_nonempty)
  have i: "(63::nat) < 64" by simp
  from preview_digest [OF b k i] obtain r63 ce where
    "tr_events ?tr ! (1 + 66 * 0 + 1 + 63) = Round r63"
    "tr_events ?tr ! (1 + 66 * 0 + 65) = ChunkEnd ce"
    "rd_digestPreview r63 = ce_digestAfterChunk ce"
    by blast
  then have "\<exists>r63 ce. tr_events ?tr ! 65 = Round r63 \<and> tr_events ?tr ! 66 = ChunkEnd ce \<and>
      rd_digestPreview r63 = ce_digestAfterChunk ce"
    by simp
  with b k show ?thesis by blast
qed

text \<open>
  C4. In chunk \<open>k\<close> of a trace, with \<open>M\<close> the chunk's words and \<open>H\<close> the hash state entering
  the chunk, the Round event of round \<open>i\<close> starts from the registers \<open>(a, b, c, d)\<close> that the
  spec's rounds \<open>0\<close> to \<open>i - 1\<close> give from \<open>H\<close>; it records the family chosen by the range of
  \<open>i\<close>, \<open>f\<close> and \<open>g\<close> by the family's formulas, \<open>sum = (a + f + K[i] + M[g]) mod 2^32\<close>, its
  circular left shift by \<open>S[i]\<close>, and the registers \<open>(d, (b + rotated) mod 2^32, b, c)\<close> after
  the round.  The ChunkEnd event records the registers after round 63 and the new hash
  state, \<open>H\<close> plus those registers position by position modulo \<open>2^32\<close>, which is the state
  the next chunk starts from; the first chunk starts from \<open>INITIAL_HASH\<close>.
\<close>

theorem round_engine:
  assumes "buildMd5Trace v t = Inr tr" and "k < length (tr_chunks tr)" and "i < 64"
  shows "\<exists>cs r ce a b c d.
    tr_events tr ! (1 + 66 * k) = ChunkStart cs \<and>
    tr_events tr ! (1 + 66 * k + 1 + i) = Round r \<and>
    tr_events tr ! (1 + 66 * k + 65) = ChunkEnd ce \<and>
    cs_chunkWords cs = chunk_words (tr_chunks tr ! k) \<and>
    length (cs_chunkWords cs) = 16 \<and>
    cs_registersBefore cs = cs_hashBefore cs \<and>
    spec_rounds (cs_chunkWords cs) i (hash_regs (cs_hashBefore cs)) = (a, b, c, d) \<and>
    rd_registersBefore r = [a, b, c, d] \<and>
    rd_functionName r = spec_family i \<and>
    rd_functionResult r = spec_f i b c d \<and>
    rd_g r = spec_g i \<and>
    rd_g r < 16 \<and>
    rd_constant r = TABLE_K ! i \<and>
    rd_shift r = SHIFT_AMOUNTS ! i \<and>
    rd_messageWord r = cs_chunkWords cs ! rd_g r \<and>
    rd_sum r = a + rd_functionResult r + rd_constant r + rd_messageWord r \<and>
    unat (rd_sum r) =
      (unat a + unat (rd_functionResult r) + unat (rd_constant r) + unat (rd_messageWord r))
        mod 2 ^ 32 \<and>
    rd_rotated r = word_rotl (rd_shift r) (rd_sum r) \<and>
    rd_registersAfter r = [d, b + rd_rotated r, b, c] \<and>
    unat (b + rd_rotated r) = (unat b + unat (rd_rotated r)) mod 2 ^ 32 \<and>
    spec_rounds (cs_chunkWords cs) (Suc i) (hash_regs (cs_hashBefore cs)) =
      (d, b + rd_rotated r, b, c) \<and>
    ce_hashBefore ce = cs_hashBefore cs \<and>
    ce_registersBeforeAdd ce =
      regs_list (spec_rounds (cs_chunkWords cs) 64 (hash_regs (cs_hashBefore cs))) \<and>
    length (ce_hashBefore ce) = 4 \<and>
    length (ce_registersBeforeAdd ce) = 4 \<and>
    ce_hashAfter ce = map2 (+) (ce_hashBefore ce) (ce_registersBeforeAdd ce) \<and>
    map unat (ce_hashAfter ce) =
      map2 (\<lambda>h x. (unat h + unat x) mod 2 ^ 32) (ce_hashBefore ce) (ce_registersBeforeAdd ce) \<and>
    (k = 0 \<longrightarrow> cs_hashBefore cs = INITIAL_HASH) \<and>
    (Suc k < length (tr_chunks tr) \<longrightarrow>
      (\<exists>cs'. tr_events tr ! (1 + 66 * Suc k) = ChunkStart cs' \<and>
             cs_hashBefore cs' = ce_hashAfter ce))"
proof -
  from assms(1) obtain bs where tr: "tr = trace_of_bytes t bs"
    using build_Inr by blast
  let ?cs = "chunkBytes (padBytes bs)"
  let ?ch = "?cs ! k"
  let ?H = "hash_before ?cs k"
  let ?M = "chunk_words ?ch"
  from assms(2) have k: "k < length ?cs"
    by (simp add: tr trace_chunks)
  have H4: "length ?H = 4" by (rule length_hash_before)
  obtain a b c d where ri: "spec_rounds ?M i (hash_regs ?H) = (a, b, c, d)"
    by (cases "spec_rounds ?M i (hash_regs ?H)") auto
  obtain a' b' c' d' where r64: "spec_rounds ?M 64 (hash_regs ?H) = (a', b', c', d')"
    by (cases "spec_rounds ?M 64 (hash_regs ?H)") auto
  note S = chunk_start_at_eq [OF H4, of ?ch]
  note R = round_event_at_Round [OF assms(3) ri]
  note E = chunk_end_at_eq [OF r64]
  have "\<exists>cs. tr_events tr ! (1 + 66 * k) = ChunkStart cs \<and> cs_hashBefore cs = ?H \<and>
      cs_chunkWords cs = ?M \<and> cs_registersBefore cs = ?H"
    unfolding tr ev_start [OF k] S by simp
  then obtain cs where e1: "tr_events tr ! (1 + 66 * k) = ChunkStart cs"
    and csH: "cs_hashBefore cs = ?H" and csM: "cs_chunkWords cs = ?M"
    and csR: "cs_registersBefore cs = ?H"
    by blast
  have "\<exists>r. tr_events tr ! (1 + 66 * k + 1 + i) = Round r \<and>
      rd_registersBefore r = [a, b, c, d] \<and>
      rd_functionName r = spec_family i \<and>
      rd_functionResult r = spec_f i b c d \<and>
      rd_g r = spec_g i \<and>
      rd_constant r = TABLE_K ! i \<and>
      rd_shift r = SHIFT_AMOUNTS ! i \<and>
      rd_messageWord r = ?M ! spec_g i \<and>
      rd_sum r = spec_sum ?M i (a, b, c, d) \<and>
      rd_rotated r = spec_rotated ?M i (a, b, c, d) \<and>
      rd_registersAfter r = [d, b + spec_rotated ?M i (a, b, c, d), b, c]"
    unfolding tr ev_round [OF k assms(3)] R by simp
  then obtain r where e2: "tr_events tr ! (1 + 66 * k + 1 + i) = Round r"
    and rb: "rd_registersBefore r = [a, b, c, d]"
    and rn: "rd_functionName r = spec_family i"
    and rf: "rd_functionResult r = spec_f i b c d"
    and rg: "rd_g r = spec_g i"
    and rk: "rd_constant r = TABLE_K ! i"
    and rs: "rd_shift r = SHIFT_AMOUNTS ! i"
    and rm: "rd_messageWord r = ?M ! spec_g i"
    and rsum: "rd_sum r = spec_sum ?M i (a, b, c, d)"
    and rrot: "rd_rotated r = spec_rotated ?M i (a, b, c, d)"
    and ra: "rd_registersAfter r = [d, b + spec_rotated ?M i (a, b, c, d), b, c]"
    by blast
  have "\<exists>ce. tr_events tr ! (1 + 66 * k + 65) = ChunkEnd ce \<and>
      ce_hashBefore ce = ?H \<and>
      ce_registersBeforeAdd ce = [a', b', c', d'] \<and>
      ce_hashAfter ce = [?H ! 0 + a', ?H ! 1 + b', ?H ! 2 + c', ?H ! 3 + d']"
    unfolding tr ev_end [OF k] E by simp
  then obtain ce where e3: "tr_events tr ! (1 + 66 * k + 65) = ChunkEnd ce"
    and ceH: "ce_hashBefore ce = ?H"
    and ceR: "ce_registersBeforeAdd ce = [a', b', c', d']"
    and ceA: "ce_hashAfter ce = [?H ! 0 + a', ?H ! 1 + b', ?H ! 2 + c', ?H ! 3 + d']"
    by blast
  have f1: "cs_chunkWords cs = chunk_words (tr_chunks tr ! k)"
    by (simp only: csM tr trace_chunks)
  have f2: "length (cs_chunkWords cs) = 16"
    by (simp add: csM chunkBytes_nth [OF k] chunk_at_def Let_def)
  have f3: "cs_registersBefore cs = cs_hashBefore cs"
    by (simp only: csR csH)
  have f4: "spec_rounds (cs_chunkWords cs) i (hash_regs (cs_hashBefore cs)) = (a, b, c, d)"
    by (simp only: csM csH ri)
  have f5: "rd_g r < 16"
    by (simp only: rg spec_g_less)
  have f6: "rd_messageWord r = cs_chunkWords cs ! rd_g r"
    by (simp only: rm csM rg)
  have f7: "rd_sum r = a + rd_functionResult r + rd_constant r + rd_messageWord r"
    by (simp only: rsum rf rk rm spec_sum_def prod.case)
  have f8: "unat (rd_sum r) =
      (unat a + unat (rd_functionResult r) + unat (rd_constant r) + unat (rd_messageWord r))
        mod 2 ^ 32"
    by (simp only: f7 unat_sum4)
  have f9: "rd_rotated r = word_rotl (rd_shift r) (rd_sum r)"
    by (simp only: rrot rs rsum spec_rotated_def)
  have f10: "rd_registersAfter r = [d, b + rd_rotated r, b, c]"
    by (simp only: ra rrot)
  have f11: "unat (b + rd_rotated r) = (unat b + unat (rd_rotated r)) mod 2 ^ 32"
    by (simp add: unat_word_ariths)
  have f12: "spec_rounds (cs_chunkWords cs) (Suc i) (hash_regs (cs_hashBefore cs)) =
      (d, b + rd_rotated r, b, c)"
    by (simp add: csM csH ri rrot spec_round_def)
  have f13: "ce_hashBefore ce = cs_hashBefore cs"
    by (simp only: ceH csH)
  have f14: "ce_registersBeforeAdd ce =
      regs_list (spec_rounds (cs_chunkWords cs) 64 (hash_regs (cs_hashBefore cs)))"
    by (simp only: ceR csM csH r64 regs_list_def prod.case)
  have f15: "length (ce_hashBefore ce) = 4"
    by (simp only: ceH H4)
  have f16: "length (ce_registersBeforeAdd ce) = 4"
    by (simp add: ceR)
  have f17: "ce_hashAfter ce = map2 (+) (ce_hashBefore ce) (ce_registersBeforeAdd ce)"
    by (simp only: ceA ceH ceR map2_add4 [OF H4])
  have f18: "map unat (ce_hashAfter ce) =
      map2 (\<lambda>h x. (unat h + unat x) mod 2 ^ 32) (ce_hashBefore ce) (ce_registersBeforeAdd ce)"
    by (simp only: f17 unat_map2_add)
  have f19: "k = 0 \<longrightarrow> cs_hashBefore cs = INITIAL_HASH"
    by (simp add: csH hash_before_0)
  have f20: "Suc k < length (tr_chunks tr) \<longrightarrow>
      (\<exists>cs'. tr_events tr ! (1 + 66 * Suc k) = ChunkStart cs' \<and>
             cs_hashBefore cs' = ce_hashAfter ce)"
  proof
    assume "Suc k < length (tr_chunks tr)"
    then have k': "Suc k < length ?cs"
      by (simp add: tr trace_chunks)
    have H': "length (hash_before ?cs (Suc k)) = 4" by (rule length_hash_before)
    have "hash_before ?cs (Suc k) = compress ?ch ?H"
      by (rule hash_before_Suc [OF k])
    also have "\<dots> = ce_hashAfter ce"
      by (simp only: compress_spec r64 spec_fold_def prod.case ceA)
    finally have n: "hash_before ?cs (Suc k) = ce_hashAfter ce" .
    show "\<exists>cs'. tr_events tr ! (1 + 66 * Suc k) = ChunkStart cs' \<and>
             cs_hashBefore cs' = ce_hashAfter ce"
      unfolding tr ev_start [OF k'] chunk_start_at_eq [OF H'] by (simp add: n)
  qed
  show ?thesis
    by (rule exI [of _ cs], rule exI [of _ r], rule exI [of _ ce], rule exI [of _ a],
        rule exI [of _ b], rule exI [of _ c], rule exI [of _ d])
       (intro conjI e1 e2 e3 f1 f2 f3 f4 rb rn rf rg f5 rk rs f6 f7 f8 f9 f10 f11 f12 f13 f14
        f15 f16 f17 f18 f19 f20)
qed

theorem round_engine_witness:
  "buildMd5Trace (js ''abc'') Text = Inr (trace_of_bytes Text [0x61, 0x62, 0x63]) \<and>
   0 < length (tr_chunks (trace_of_bytes Text [0x61, 0x62, 0x63])) \<and>
   (\<exists>cs r. tr_events (trace_of_bytes Text [0x61, 0x62, 0x63]) ! 1 = ChunkStart cs \<and>
      tr_events (trace_of_bytes Text [0x61, 0x62, 0x63]) ! 2 = Round r \<and>
      cs_hashBefore cs = INITIAL_HASH \<and>
      cs_chunkWords cs = [0x80636261, 0, 0, 0, 0, 0, 0, 0, 0, 0, 0, 0, 0, 0, 24, 0] \<and>
      rd_registersBefore r = [0x67452301, 0xefcdab89, 0x98badcfe, 0x10325476] \<and>
      rd_functionName r = ''F'' \<and>
      rd_functionResult r = 0x98badcfe \<and>
      rd_g r = 0 \<and>
      rd_sum r = 0x57ce06d8)"
proof -
  let ?tr = "trace_of_bytes Text [0x61, 0x62, 0x63]"
  have b: "buildMd5Trace (js ''abc'') Text = Inr ?tr"
    by (simp add: buildMd5Trace_def parseInputBytes_def js_abc encode_abc)
  have k: "0 < length (tr_chunks ?tr)"
    by (simp only: trace_chunks chunks_nonempty)
  have i: "(0::nat) < 64" by simp
  have w: "chunk_words (tr_chunks ?tr ! 0) =
      [0x80636261, 0, 0, 0, 0, 0, 0, 0, 0, 0, 0, 0, 0, 0, 24, 0]"
    by (simp add: trace_chunks chunks_abc words_abc)
  from round_engine [OF b k i] obtain cs r a b' c d where
    e1: "tr_events ?tr ! (1 + 66 * 0) = ChunkStart cs"
    and e2: "tr_events ?tr ! (1 + 66 * 0 + 1 + 0) = Round r"
    and m: "cs_chunkWords cs = chunk_words (tr_chunks ?tr ! 0)"
    and s: "spec_rounds (cs_chunkWords cs) 0 (hash_regs (cs_hashBefore cs)) = (a, b', c, d)"
    and rb: "rd_registersBefore r = [a, b', c, d]"
    and rn: "rd_functionName r = spec_family 0"
    and rf: "rd_functionResult r = spec_f 0 b' c d"
    and rg: "rd_g r = spec_g 0"
    and rk: "rd_constant r = TABLE_K ! 0"
    and rm: "rd_messageWord r = cs_chunkWords cs ! rd_g r"
    and rs: "rd_sum r = a + rd_functionResult r + rd_constant r + rd_messageWord r"
    and h: "0 = (0::nat) \<longrightarrow> cs_hashBefore cs = INITIAL_HASH"
    by blast
  from h have H: "cs_hashBefore cs = INITIAL_HASH" by simp
  from s have abcd: "a = 0x67452301" "b' = 0xefcdab89" "c = 0x98badcfe" "d = 0x10325476"
    by (simp_all add: H hash_regs_def INITIAL_HASH_def)
  have g0: "rd_g r = 0" by (simp add: rg spec_g_def)
  have f0: "rd_functionResult r = 0x98badcfe"
    by (simp add: rf abcd spec_f_def)
  have s0: "rd_sum r = 0x57ce06d8"
    by (simp add: rs f0 rk rm g0 m w abcd TABLE_K_def)
  have n0: "rd_functionName r = ''F''"
    by (simp add: rn spec_family_def)
  from e1 have e1': "tr_events ?tr ! 1 = ChunkStart cs" by simp
  have "1 + 66 * 0 + 1 + 0 = (2::nat)" by simp
  with e2 have e2': "tr_events ?tr ! 2 = Round r" by (simp only:)
  have c1: "cs_chunkWords cs = [0x80636261, 0, 0, 0, 0, 0, 0, 0, 0, 0, 0, 0, 0, 0, 24, 0]"
    by (simp only: m w)
  have c2: "rd_registersBefore r = [0x67452301, 0xefcdab89, 0x98badcfe, 0x10325476]"
    by (simp only: rb abcd)
  show ?thesis
    by (rule conjI [OF b], rule conjI [OF k], rule exI [of _ cs], rule exI [of _ r])
       (intro conjI e1' e2' H c1 c2 n0 f0 g0 s0)
qed

end
